theory Spec2Isabelle
  imports Complex_Main "HOL-Library.Char_ord" "HOL-Library.List_Lexorder" "HOL-Library.Log_Nat"
begin

section \<open>Floating-point arithmetic\<close>

text \<open>
  The times of a transcript are Python floats, that is IEEE 754 binary64 numbers, and every
  sum, difference and quotient the scripts compute is rounded to the nearest such number,
  ties going to the even significand. Numbers are reals here and the rounding is written
  out: \<open>float_exponent x\<close> is the binary exponent of \<open>x\<close>, the spacing of the doubles
  around \<open>x\<close> is \<open>2\<close> to the power of that exponent minus 52 (and never less than that of
  the subnormal numbers), and \<open>round_double\<close> moves \<open>x\<close> to the nearest multiple of the
  spacing. Comparisons of floats are comparisons of their values. Infinities and NaN are
  left out: the numbers of a transcript are finite and far from the overflow threshold.
\<close>

definition float_exponent :: "real \<Rightarrow> int" where
  "float_exponent x = \<lfloor>log 2 \<bar>x\<bar>\<rfloor>"

lemma two_powr_int:
  "2 powr real_of_int k = (if 0 \<le> k then 2 ^ nat k else inverse (2 ^ nat (- k)))"
  by (rule powr_real_of_int) simp

lemma float_exponent_ge_one:
  assumes "1 \<le> a"
  shows "\<lfloor>log 2 a\<rfloor> = bitlen \<lfloor>a\<rfloor> - 1"
proof -
  let ?m = "\<lfloor>a\<rfloor>"
  let ?e = "bitlen ?m - 1"
  from assms have m: "0 < ?m" by simp
  from bitlen_bounds [OF m] have b1: "2 ^ nat ?e \<le> ?m" and b2: "?m < 2 ^ nat (bitlen ?m)"
    by simp_all
  from m have e0: "0 \<le> ?e" using bitlen_bounds [OF m]
    by (metis bitlen_eq_zero_iff bitlen_nonneg diff_ge_0_iff_ge int_one_le_iff_zero_less
        le_less not_le)
  have p1: "2 powr real_of_int ?e = real_of_int (2 ^ nat ?e)"
    using e0 by (simp only: two_powr_int if_True) simp
  from e0 have "0 \<le> ?e + 1" and "nat (?e + 1) = nat (bitlen ?m)" by simp_all
  then have p2: "2 powr real_of_int (?e + 1) = real_of_int (2 ^ nat (bitlen ?m))"
    by (simp only: two_powr_int if_True) simp
  have "real_of_int (2 ^ nat ?e) \<le> real_of_int ?m" using b1 by (simp only: of_int_le_iff)
  also have "\<dots> \<le> a" by simp
  finally have l: "2 powr real_of_int ?e \<le> a" by (simp only: p1)
  from b2 have "?m + 1 \<le> 2 ^ nat (bitlen ?m)" by simp
  then have E: "real_of_int (?m + 1) \<le> real_of_int (2 ^ nat (bitlen ?m))"
    by (simp only: of_int_le_iff)
  have F: "a < real_of_int (?m + 1)" by simp
  from F E have "a < real_of_int (2 ^ nat (bitlen ?m))" by (rule less_le_trans)
  then have u: "a < 2 powr real_of_int (?e + 1)" by (simp only: p2)
  from assms have "0 < a" by simp
  with l u show ?thesis
    using floor_log_eq_powr_iff [of a 2 ?e] by simp
qed

lemma float_exponent_lt_one:
  assumes "0 < a" and "a < 1"
  shows "\<lfloor>log 2 a\<rfloor> = - bitlen (\<lceil>1 / a\<rceil> - 1)"
proof -
  let ?n = "\<lceil>1 / a\<rceil>"
  let ?k = "bitlen (?n - 1)"
  from assms have y: "1 < 1 / a" by simp
  then have n: "0 < ?n - 1" by (simp add: less_ceiling_iff)
  from bitlen_bounds [OF n] have b1: "2 ^ nat (?k - 1) \<le> ?n - 1" and b2: "?n - 1 < 2 ^ nat ?k"
    by simp_all
  from n have k1: "1 \<le> ?k"
    by (metis bitlen_eq_zero_iff bitlen_nonneg int_one_le_iff_zero_less le_less not_le)
  from k1 have "\<not> 0 \<le> - ?k" and "nat (- (- ?k)) = nat ?k" by simp_all
  then have p1: "2 powr real_of_int (- ?k) = inverse (real_of_int (2 ^ nat ?k))"
    by (simp only: two_powr_int if_False) simp
  have p2: "2 powr real_of_int (- ?k + 1) = inverse (real_of_int (2 ^ nat (?k - 1)))"
  proof (cases "?k = 1")
    case True
    then show ?thesis by (simp only: two_powr_int) simp
  next
    case False
    with k1 have "\<not> 0 \<le> - ?k + 1" and "nat (- (- ?k + 1)) = nat (?k - 1)" by simp_all
    then show ?thesis by (simp only: two_powr_int if_False) simp
  qed
  from b2 have "?n \<le> 2 ^ nat ?k" by simp
  then have B: "real_of_int ?n \<le> real_of_int (2 ^ nat ?k)" by (simp only: of_int_le_iff)
  have A: "1 / a \<le> real_of_int ?n" by simp
  from A B have "1 / a \<le> real_of_int (2 ^ nat ?k)" by (rule order_trans)
  with assms have l: "2 powr real_of_int (- ?k) \<le> a"
    unfolding p1 by (simp add: field_simps)
  from b1 have C: "real_of_int (2 ^ nat (?k - 1)) \<le> real_of_int (?n - 1)"
    by (simp only: of_int_le_iff)
  have D: "real_of_int (?n - 1) < 1 / a" by simp linarith
  from C D have "real_of_int (2 ^ nat (?k - 1)) < 1 / a" by (rule le_less_trans)
  with assms have u: "a < 2 powr real_of_int (- ?k + 1)"
    unfolding p2 by (simp add: field_simps)
  from assms l u show ?thesis
    using floor_log_eq_powr_iff [of a 2 "- ?k"] by simp
qed

lemma float_exponent_code [code]:
  "float_exponent x =
     (if 1 \<le> \<bar>x\<bar> then bitlen \<lfloor>\<bar>x\<bar>\<rfloor> - 1 else - bitlen (\<lceil>1 / \<bar>x\<bar>\<rceil> - 1))"
proof (cases "x = 0")
  case True
  then show ?thesis by (simp add: float_exponent_def bitlen_alt_def log_def)
next
  case False
  then have "0 < \<bar>x\<bar>" by simp
  then show ?thesis
    using float_exponent_ge_one [of "\<bar>x\<bar>"] float_exponent_lt_one [of "\<bar>x\<bar>"]
    by (simp add: float_exponent_def)
qed

definition round_half_even :: "real \<Rightarrow> int" where
  "round_half_even q =
     (let f = \<lfloor>q\<rfloor> in
      if q - of_int f < 1 / 2 then f
      else if 1 / 2 < q - of_int f then f + 1
      else if even f then f else f + 1)"

definition round_double :: "real \<Rightarrow> real" where
  "round_double x =
     (if x = 0 then 0
      else
        (let e = max (float_exponent x) (- 1022);
             u = 2 powi (e - 52)
         in of_int (round_half_even (x / u)) * u))"

text \<open>Python's \<open>x + y\<close>, \<open>x - y\<close> and \<open>x / y\<close> on floats.\<close>

definition fadd :: "real \<Rightarrow> real \<Rightarrow> real" where
  "fadd x y = round_double (x + y)"

definition fsub :: "real \<Rightarrow> real \<Rightarrow> real" where
  "fsub x y = round_double (x - y)"

definition fdiv :: "real \<Rightarrow> real \<Rightarrow> real" where
  "fdiv x y = round_double (x / y)"

section \<open>Transcript segments and chunks\<close>

text \<open>
  A transcript segment carries a start time, a duration and a text; the chunker reads
  the three attributes and nothing else.
\<close>

record segment =
  seg_start :: real
  seg_duration :: real
  seg_text :: string

text \<open>
  The dictionary appended to \<open>chunks\<close> by \<open>chunk_smart_duration\<close>. Its keys are
  \<open>chunk_id\<close>, \<open>start\<close>, \<open>end\<close>, \<open>duration\<close>, \<open>text\<close>, \<open>segments\<close> (the number of
  segments of the chunk) and \<open>target_duration\<close>.
\<close>

record chunk =
  c_chunk_id :: nat
  c_start :: real
  c_end :: real
  c_duration :: real
  c_text :: string
  c_segments :: nat
  c_target_duration :: real

text \<open>Python's \<open>sep.join(items)\<close> on strings.\<close>

fun py_join :: "string \<Rightarrow> string list \<Rightarrow> string" where
  "py_join sep [] = []"
| "py_join sep [t] = t"
| "py_join sep (t # u # ts) = t @ sep @ py_join sep (u # ts)"

section \<open>The chunker\<close>

text \<open>
  The inner \<open>while i < len(segments)\<close> loop of \<open>chunk_smart_duration\<close>. Its state is the
  cursor \<open>i\<close>, the lists \<open>chunk_segments\<close> and \<open>chunk_texts\<close> and the accumulated
  \<open>current_duration\<close>; \<open>break\<close> and the loop condition both return the state.
\<close>

function inner_loop ::
  "segment list \<Rightarrow> real \<Rightarrow> real \<Rightarrow> real \<Rightarrow> nat \<Rightarrow> segment list \<Rightarrow> string list \<Rightarrow> real
    \<Rightarrow> nat \<times> segment list \<times> string list \<times> real" where
  "inner_loop segments min_duration max_duration target_duration i
      chunk_segments chunk_texts current_duration =
    (if i < length segments then
       (let seg = segments ! i; seg_dur = seg_duration seg in
        if chunk_segments = [] then
          inner_loop segments min_duration max_duration target_duration (i + 1)
            (chunk_segments @ [seg]) (chunk_texts @ [seg_text seg]) (fadd current_duration seg_dur)
        else
          (let new_duration = fadd current_duration seg_dur in
           if current_duration < min_duration then
             inner_loop segments min_duration max_duration target_duration (i + 1)
               (chunk_segments @ [seg]) (chunk_texts @ [seg_text seg]) (fadd current_duration seg_dur)
           else if current_duration \<ge> target_duration \<or> new_duration > max_duration then
             (i, chunk_segments, chunk_texts, current_duration)
           else
             inner_loop segments min_duration max_duration target_duration (i + 1)
               (chunk_segments @ [seg]) (chunk_texts @ [seg_text seg]) (fadd current_duration seg_dur)))
     else (i, chunk_segments, chunk_texts, current_duration))"
  by pat_completeness auto
termination
  by (relation "measure (\<lambda>(segments, mn, mx, t, i, r). length segments - i)") auto

declare inner_loop.simps [simp del]

text \<open>
  The body of the inner loop appends the segment under the cursor in three places: when
  the chunk is still empty, when the accumulated duration is below the minimum, and when
  neither stop condition holds. \<open>consumes\<close> collects the three guards.
\<close>

definition consumes :: "real \<Rightarrow> real \<Rightarrow> real \<Rightarrow> segment list \<Rightarrow> real \<Rightarrow> real \<Rightarrow> bool" where
  "consumes mn mx t cs cur d \<longleftrightarrow> cs = [] \<or> cur < mn \<or> (cur < t \<and> fadd cur d \<le> mx)"

lemma inner_loop_end:
  "\<not> i < length segments \<Longrightarrow> inner_loop segments mn mx t i cs ct cur = (i, cs, ct, cur)"
  by (subst inner_loop.simps) simp

lemma inner_loop_take:
  "i < length segments \<Longrightarrow> consumes mn mx t cs cur (seg_duration (segments ! i)) \<Longrightarrow>
   inner_loop segments mn mx t i cs ct cur =
     inner_loop segments mn mx t (Suc i) (cs @ [segments ! i]) (ct @ [seg_text (segments ! i)])
       (fadd cur (seg_duration (segments ! i)))"
  by (subst inner_loop.simps) (auto simp: consumes_def Let_def)

lemma inner_loop_break:
  "i < length segments \<Longrightarrow> \<not> consumes mn mx t cs cur (seg_duration (segments ! i)) \<Longrightarrow>
   inner_loop segments mn mx t i cs ct cur = (i, cs, ct, cur)"
  by (subst inner_loop.simps) (auto simp: consumes_def Let_def)

lemma inner_loop_induct [consumes 0, case_names step]:
  assumes "\<And>i cs ct cur.
     (i < length segments \<Longrightarrow> consumes mn mx t cs cur (seg_duration (segments ! i)) \<Longrightarrow>
        P (Suc i) (cs @ [segments ! i]) (ct @ [seg_text (segments ! i)])
          (fadd cur (seg_duration (segments ! i))))
     \<Longrightarrow> P i cs ct cur"
  shows "P i cs ct cur"
proof -
  have main: "P i cs ct cur" if "n = length segments - i" for n i cs ct cur
    using that
  proof (induction n arbitrary: i cs ct cur rule: less_induct)
    case (less n)
    show ?case
      apply (rule assms)
      apply (rule less.IH [OF _ refl])
      using less.prems apply arith
      done
  qed
  show ?thesis by (rule main) (rule refl)
qed

lemma take_drop_step:
  "i < length xs \<Longrightarrow> i < i' \<Longrightarrow>
     take (i' - i) (drop i xs) = xs ! i # take (i' - Suc i) (drop (Suc i) xs)"
proof -
  assume a: "i < length xs" "i < i'"
  then have "i' - i = Suc (i' - Suc i)" by arith
  moreover from a have "drop i xs = xs ! i # drop (Suc i) xs"
    by (simp add: Cons_nth_drop_Suc)
  ultimately show ?thesis by simp
qed

lemma inner_loop_spec:
  "inner_loop segments mn mx t i cs ct cur = (i', cs', ct', cur') \<longrightarrow>
     i \<le> i' \<and> (i \<le> length segments \<longrightarrow> i' \<le> length segments) \<and>
     (i < length segments \<and> cs = [] \<longrightarrow> i < i') \<and>
     cs' = cs @ take (i' - i) (drop i segments) \<and>
     ct' = ct @ map seg_text (take (i' - i) (drop i segments)) \<and>
     cur' = foldl fadd cur (map seg_duration (take (i' - i) (drop i segments))) \<and>
     (i' < length segments \<longrightarrow> \<not> consumes mn mx t cs' cur' (seg_duration (segments ! i')))"
proof (induction i cs ct cur rule: inner_loop_induct [of segments mn mx t])
  case (step i cs ct cur)
  show ?case
  proof (cases "i < length segments")
    case False
    then show ?thesis by (simp add: inner_loop_end)
  next
    case lt: True
    show ?thesis
    proof (cases "consumes mn mx t cs cur (seg_duration (segments ! i))")
      case False
      with lt show ?thesis by (auto simp add: inner_loop_break consumes_def)
    next
      case True
      note IH = step [OF lt True]
      show ?thesis
      proof
        assume "inner_loop segments mn mx t i cs ct cur = (i', cs', ct', cur')"
        with lt True have r: "inner_loop segments mn mx t (Suc i) (cs @ [segments ! i])
            (ct @ [seg_text (segments ! i)]) (fadd cur (seg_duration (segments ! i))) = (i', cs', ct', cur')"
          by (simp add: inner_loop_take)
        from IH r have f: "Suc i \<le> i'" by simp
        then have ii: "i < i'" by simp
        note td = take_drop_step [OF lt ii]
        from IH r lt show "i \<le> i' \<and> (i \<le> length segments \<longrightarrow> i' \<le> length segments) \<and>
     (i < length segments \<and> cs = [] \<longrightarrow> i < i') \<and>
     cs' = cs @ take (i' - i) (drop i segments) \<and>
     ct' = ct @ map seg_text (take (i' - i) (drop i segments)) \<and>
     cur' = foldl fadd cur (map seg_duration (take (i' - i) (drop i segments))) \<and>
     (i' < length segments \<longrightarrow> \<not> consumes mn mx t cs' cur' (seg_duration (segments ! i')))"
          by (auto simp add: td)
      qed
    qed
  qed
qed

lemma inner_loop_advance:
  assumes "i < length segments"
    and "inner_loop segments mn mx t i [] ct cur = (i', cs', ct', cur')"
  shows "i < i'" and "i' \<le> length segments"
  using assms inner_loop_spec [of segments mn mx t i "[]" ct cur i' cs' ct' cur'] by simp_all

lemma inner_loop_measure:
  assumes lt: "i < length segments"
    and r: "(i', y) = inner_loop segments mn mx t i [] [] 0"
  shows "length segments - i' < length segments - i"
proof -
  obtain cs ct cur where y: "y = (cs, ct, cur)" by (cases y) auto
  from r y have "inner_loop segments mn mx t i [] [] 0 = (i', cs, ct, cur)"
    by simp
  from inner_loop_advance [OF lt this] show ?thesis
    by arith
qed

text \<open>
  The outer \<open>while i < len(segments)\<close> loop. \<open>draws k\<close> is the value returned by the
  \<open>k\<close>-th call of \<open>random.uniform(min_duration, max_duration)\<close> made by this invocation;
  the counter \<open>k\<close> advances once per iteration, \<open>chunk_id\<close> once per emitted chunk.
\<close>

function outer_loop ::
  "segment list \<Rightarrow> real \<Rightarrow> real \<Rightarrow> (nat \<Rightarrow> real) \<Rightarrow> nat \<Rightarrow> nat \<Rightarrow> nat \<Rightarrow> chunk list
    \<Rightarrow> chunk list" where
  "outer_loop segments min_duration max_duration draws k i chunk_id chunks =
    (if i < length segments then
       (let target_duration = draws k;
            chunk_start = seg_start (segments ! i)
        in case inner_loop segments min_duration max_duration target_duration i [] [] 0 of
          (i', chunk_segments, chunk_texts, current_duration) \<Rightarrow>
            if chunk_segments \<noteq> [] then
              (let chunk_end = fadd (seg_start (last chunk_segments)) (seg_duration (last chunk_segments))
               in outer_loop segments min_duration max_duration draws (k + 1) i' (chunk_id + 1)
                    (chunks @ [\<lparr>c_chunk_id = chunk_id, c_start = chunk_start, c_end = chunk_end,
                       c_duration = fsub chunk_end chunk_start,
                       c_text = py_join '' '' chunk_texts,
                       c_segments = length chunk_segments,
                       c_target_duration = target_duration\<rparr>]))
            else outer_loop segments min_duration max_duration draws (k + 1) i' chunk_id chunks)
     else chunks)"
  by pat_completeness auto
termination
  by (relation "measure (\<lambda>(segments, mn, mx, draws, k, i, r). length segments - i)")
    (auto intro: inner_loop_measure)

declare outer_loop.simps [simp del]

text \<open>\<open>chunk_smart_duration(segments, min_duration, max_duration)\<close>.\<close>

definition chunk_smart_duration ::
  "segment list \<Rightarrow> real \<Rightarrow> real \<Rightarrow> (nat \<Rightarrow> real) \<Rightarrow> chunk list" where
  "chunk_smart_duration segments min_duration max_duration draws =
     (if segments = [] then [] else outer_loop segments min_duration max_duration draws 0 0 0 [])"

text \<open>A source of random draws that returns the same value at every call.\<close>

definition fixed_draw :: "real \<Rightarrow> nat \<Rightarrow> real" where
  "fixed_draw t k = t"

text \<open>
  Inputs on which rounding shows. A \<open>contiguous\<close> transcript is one in which every segment
  ends exactly where the next one starts, and \<open>doubles\<close> says that every start and
  duration is a floating-point number and no duration is negative. Both hold of the two
  transcripts below, whose first segment starts a tiny fraction of a second after zero.
\<close>

fun contiguous :: "segment list \<Rightarrow> bool" where
  "contiguous (s # s' # r) =
     (seg_start s + seg_duration s = seg_start s' \<and> contiguous (s' # r))"
| "contiguous r = True"

definition doubles :: "segment list \<Rightarrow> bool" where
  "doubles segments =
     list_all (\<lambda>s. round_double (seg_start s) = seg_start s \<and>
                  round_double (seg_duration s) = seg_duration s \<and> 0 \<le> seg_duration s) segments"

definition short_by_rounding :: "segment list" where
  "short_by_rounding =
     [\<lparr>seg_start = 5 / 2 ^ 51, seg_duration = 1 - 5 / 2 ^ 51, seg_text = ''a''\<rparr>,
      \<lparr>seg_start = 1, seg_duration = 11, seg_text = ''b''\<rparr>,
      \<lparr>seg_start = 12, seg_duration = 8, seg_text = ''c''\<rparr>,
      \<lparr>seg_start = 20, seg_duration = 11, seg_text = ''d''\<rparr>]"

definition long_by_rounding :: "segment list" where
  "long_by_rounding =
     [\<lparr>seg_start = 3 / 2 ^ 51, seg_duration = 1 - 3 / 2 ^ 51, seg_text = ''a''\<rparr>,
      \<lparr>seg_start = 1, seg_duration = 11, seg_text = ''b''\<rparr>,
      \<lparr>seg_start = 12, seg_duration = 9 + 1 / 2 ^ 48, seg_text = ''c''\<rparr>,
      \<lparr>seg_start = 21 + 1 / 2 ^ 48, seg_duration = 9, seg_text = ''d''\<rparr>]"

text \<open>
  The scenario of the specification: ten segments of three seconds each, starting at
  0, 3, ..., 27. The specification does not fix their texts, so they are a parameter;
  \<open>word\<close> gives every segment the same one-letter text.
\<close>

definition scenario_segments :: "(nat \<Rightarrow> string) \<Rightarrow> segment list" where
  "scenario_segments texts =
     map (\<lambda>n. \<lparr>seg_start = 3 * real n, seg_duration = 3, seg_text = texts n\<rparr>) [0..<10]"

definition word :: "nat \<Rightarrow> string" where
  "word n = ''w''"

section \<open>The batch splitter\<close>

text \<open>
  \<open>prepare_bangla_batches.py\<close> from the deduplicated identifier list on: the number of
  batches is \<open>math.ceil(len(video_ids) / VIDEOS_PER_BATCH)\<close>, and batch \<open>i\<close> is the slice
  \<open>video_ids[i * size : min((i + 1) * size, len(video_ids))]\<close>. The batch size is a
  parameter here and \<open>VIDEOS_PER_BATCH\<close> its value in the script; a size of zero makes the
  division raise, which is the result \<open>None\<close>. \<open>numbered_ids n\<close> is a list of \<open>n\<close>
  distinct identifiers to run the splitter on.
\<close>

definition VIDEOS_PER_BATCH :: nat where
  "VIDEOS_PER_BATCH = 50"

definition py_slice :: "'a list \<Rightarrow> nat \<Rightarrow> nat \<Rightarrow> 'a list" where
  "py_slice xs start_idx end_idx = drop start_idx (take end_idx xs)"

definition num_batches :: "nat \<Rightarrow> nat \<Rightarrow> nat option" where
  "num_batches n batch_size =
     (if batch_size = 0 then None else Some (nat \<lceil>real n / real batch_size\<rceil>))"

definition batch_ids :: "nat \<Rightarrow> string list \<Rightarrow> nat \<Rightarrow> string list" where
  "batch_ids batch_size video_ids i =
     (let start_idx = i * batch_size;
          end_idx = min ((i + 1) * batch_size) (length video_ids)
      in py_slice video_ids start_idx end_idx)"

definition create_batches :: "nat \<Rightarrow> string list \<Rightarrow> string list list option" where
  "create_batches batch_size video_ids =
     (case num_batches (length video_ids) batch_size of
        None \<Rightarrow> None
      | Some m \<Rightarrow> Some (map (batch_ids batch_size video_ids) [0..<m]))"

definition numbered_ids :: "nat \<Rightarrow> string list" where
  "numbered_ids n = map (\<lambda>k. replicate (Suc k) CHR ''v'') [0..<n]"

section \<open>The batch merger\<close>














section \<open>The downloader and its main loop\<close>

text \<open>
  \<open>smart_chunk_downloader.py\<close> around the chunker: its configuration constants, the
  wrapper \<open>download_transcript_chunks\<close> and the main loop with its progress file. Console
  output, the sleep between two videos and the per-video files are left out; they do not
  influence the control flow or the progress file.
\<close>

definition MIN_CHUNK_DURATION :: real where
  "MIN_CHUNK_DURATION = 20"

definition MAX_CHUNK_DURATION :: real where
  "MAX_CHUNK_DURATION = 30"

definition START_INDEX :: nat where
  "START_INDEX = 0"

definition BATCH_SIZE :: nat where
  "BATCH_SIZE = 50"

definition SAVE_EVERY :: nat where
  "SAVE_EVERY = 5"

text \<open>Python's \<open>sub in s\<close> on strings: \<open>sub\<close> occurs in \<open>s\<close> as a contiguous piece.\<close>

fun py_in :: "string \<Rightarrow> string \<Rightarrow> bool" where
  "py_in sub [] = (sub = [])"
| "py_in sub (c # cs) = (take (length sub) (c # cs) = sub \<or> py_in sub cs)"

text \<open>
  The dictionary returned by \<open>download_transcript_chunks\<close>: with \<open>success\<close> true it holds
  the number of chunks, the total duration and the average chunk duration, with
  \<open>success\<close> false the \<open>error\<close> text.

  The \<open>try\<close> block either obtains the segments of the transcript and finishes, or some
  call in it raises; the argument \<open>attempt\<close> is \<open>Inr\<close> of the segments or \<open>Inl\<close> of the
  exception's text \<open>str(e)\<close>. \<open>error_msg[:100]\<close> is \<open>take 100\<close>.
\<close>

datatype download_result =
  Success (r_chunks: nat) (r_duration: real) (r_avg_chunk_duration: real)
| Failure (r_error: string)

definition download_transcript_chunks ::
  "(nat \<Rightarrow> real) \<Rightarrow> string + segment list \<Rightarrow> download_result" where
  "download_transcript_chunks draws attempt =
     (case attempt of
        Inr segments \<Rightarrow>
          if segments = [] then Failure ''No segments found''
          else
            (let chunks = chunk_smart_duration segments MIN_CHUNK_DURATION MAX_CHUNK_DURATION draws;
                 chunk_durations = map c_duration chunks;
                 avg_duration =
                   (if chunk_durations \<noteq> []
                    then fdiv (foldl fadd 0 chunk_durations) (real (length chunk_durations))
                    else 0)
             in Success (length chunks)
                  (fadd (seg_start (last segments)) (seg_duration (last segments)))
                  avg_duration)
      | Inl error_msg \<Rightarrow>
          if py_in ''429'' error_msg \<or> py_in ''Too Many Requests'' error_msg
          then Failure ''RateLimited''
          else Failure (take 100 error_msg))"

text \<open>
  The state of the main loop. \<open>progress_writes\<close> is the history of the progress file:
  one entry, the \<open>completed\<close> set written, for each time the file is overwritten.
  \<open>fetched\<close> lists the videos \<open>download_transcript_chunks\<close> was called for, in order.
\<close>

record result_row =
  rr_video_id :: string
  rr_result :: download_result

record loop_state =
  processed :: nat
  rate_limited :: bool
  results :: "result_row list"
  all_chunk_durations :: "real list"
  downloaded :: "string set"
  progress_writes :: "string set list"
  fetched :: "string list"

definition save_progress :: "loop_state \<Rightarrow> loop_state" where
  "save_progress st = st\<lparr>progress_writes := progress_writes st @ [downloaded st]\<rparr>"

text \<open>
  The part of the loop body after the \<open>if result['success']\<close> statement, which a
  \<open>break\<close> skips: the result is appended, \<open>processed\<close> is incremented and the progress
  file is written when \<open>processed % SAVE_EVERY == 0\<close>.
\<close>

definition after_video :: "loop_state \<Rightarrow> string \<Rightarrow> download_result \<Rightarrow> loop_state" where
  "after_video st video_id result =
     (let st = st\<lparr>results := results st @ [\<lparr>rr_video_id = video_id, rr_result = result\<rparr>],
                  processed := processed st + 1\<rparr>
      in if processed st mod SAVE_EVERY = 0 then save_progress st else st)"

text \<open>
  \<open>for i, video_id in enumerate(batch_videos)\<close>. The environment is the outcome of the
  \<open>try\<close> block for each video and the random draws made while chunking it.
\<close>

fun main_loop ::
  "(string \<Rightarrow> string + segment list) \<Rightarrow> (string \<Rightarrow> nat \<Rightarrow> real) \<Rightarrow> loop_state \<Rightarrow> string list
    \<Rightarrow> loop_state" where
  "main_loop provider draws st [] = st"
| "main_loop provider draws st (video_id # rest) =
     (let result = download_transcript_chunks (draws video_id) (provider video_id);
          st = st\<lparr>fetched := fetched st @ [video_id]\<rparr>
      in case result of
           Success n d avg_dur \<Rightarrow>
             main_loop provider draws
               (after_video
                  (st\<lparr>all_chunk_durations := all_chunk_durations st @ [avg_dur],
                      downloaded := insert video_id (downloaded st)\<rparr>)
                  video_id result)
               rest
         | Failure e \<Rightarrow>
             if e = ''RateLimited'' then st\<lparr>rate_limited := True\<rparr>
             else main_loop provider draws (after_video st video_id result) rest)"

text \<open>
  The script from the filtering of the video list to the final progress save. With
  nothing left to download it leaves through \<open>exit(0)\<close> before the loop and writes
  nothing.
\<close>

definition initial_state :: "string set \<Rightarrow> loop_state" where
  "initial_state completed =
     \<lparr>processed = 0, rate_limited = False, results = [], all_chunk_durations = [],
      downloaded = completed, progress_writes = [], fetched = []\<rparr>"

definition batch_videos :: "string list \<Rightarrow> string set \<Rightarrow> string list" where
  "batch_videos all_video_ids completed =
     (let remaining_videos = filter (\<lambda>vid. vid \<notin> completed) all_video_ids
      in py_slice remaining_videos START_INDEX (START_INDEX + BATCH_SIZE))"

definition run ::
  "(string \<Rightarrow> string + segment list) \<Rightarrow> (string \<Rightarrow> nat \<Rightarrow> real) \<Rightarrow> string list \<Rightarrow> string set
    \<Rightarrow> loop_state" where
  "run provider draws all_video_ids completed =
     (if batch_videos all_video_ids completed = [] then initial_state completed
      else save_progress
             (main_loop provider draws (initial_state completed)
                (batch_videos all_video_ids completed)))"

text \<open>
  Environments to run the loop in: every draw is 25; every call raises an exception whose
  text is \<open>RateLimited\<close>; video \<open>a\<close> fails with another error and every other video has a
  one-segment transcript; every call fails with that other error; and the same as the
  third with a rate limit at video \<open>g\<close>.
\<close>

definition steady_draws :: "string \<Rightarrow> nat \<Rightarrow> real" where
  "steady_draws video_id = fixed_draw 25"

definition sentinel_provider :: "string \<Rightarrow> string + segment list" where
  "sentinel_provider video_id = Inl ''RateLimited''"

definition flaky_provider :: "string \<Rightarrow> string + segment list" where
  "flaky_provider video_id =
     (if video_id = ''a'' then Inl ''boom''
      else Inr [\<lparr>seg_start = 0, seg_duration = 4, seg_text = ''hello''\<rparr>])"

definition failing_provider :: "string \<Rightarrow> string + segment list" where
  "failing_provider video_id = Inl ''boom''"

definition throttled_provider :: "string \<Rightarrow> string + segment list" where
  "throttled_provider video_id =
     (if video_id = ''g'' then Inl ''HTTP Error 429: Too Many Requests''
      else flaky_provider video_id)"

section \<open>Properties of the two loops\<close>

text \<open>
  Notions used to state what the loops compute: the cursor after one run of the inner
  loop from an empty chunk, the value \<open>current_duration\<close> has after the loop has consumed
  a list of segments (their durations added up from the left in floating point), and the
  dictionary the outer loop builds from a non-empty list of consumed segments.
\<close>

definition next_cursor :: "segment list \<Rightarrow> real \<Rightarrow> real \<Rightarrow> real \<Rightarrow> nat \<Rightarrow> nat" where
  "next_cursor segments mn mx t i = fst (inner_loop segments mn mx t i [] [] 0)"

definition accumulated :: "segment list \<Rightarrow> real" where
  "accumulated g = foldl fadd 0 (map seg_duration g)"

definition chunk_of :: "nat \<Rightarrow> real \<Rightarrow> segment list \<Rightarrow> chunk" where
  "chunk_of n t g =
     \<lparr>c_chunk_id = n, c_start = seg_start (hd g),
      c_end = fadd (seg_start (last g)) (seg_duration (last g)),
      c_duration = fsub (fadd (seg_start (last g)) (seg_duration (last g))) (seg_start (hd g)),
      c_text = py_join '' '' (map seg_text g), c_segments = length g,
      c_target_duration = t\<rparr>"

text \<open>
  The segments a chunk list stands for: \<open>chunk_cover\<close> cuts the input into consecutive
  groups whose sizes are the \<open>segments\<close> counts of the emitted chunks, and
  \<open>built_from\<close> says that a chunk's fields are those the outer loop computes from such a
  group. The last conjunct records why the group stopped growing past \<open>max_duration\<close>.
\<close>

fun split_by :: "nat list \<Rightarrow> 'a list \<Rightarrow> 'a list list" where
  "split_by [] xs = []"
| "split_by (n # ns) xs = take n xs # split_by ns (drop n xs)"

definition chunk_cover :: "chunk list \<Rightarrow> segment list \<Rightarrow> segment list list" where
  "chunk_cover chunks segments = split_by (map c_segments chunks) segments"

definition built_from :: "real \<Rightarrow> real \<Rightarrow> chunk \<Rightarrow> segment list \<Rightarrow> bool" where
  "built_from mn mx c g \<longleftrightarrow>
     g \<noteq> [] \<and> c_start c = seg_start (hd g) \<and>
     c_end c = fadd (seg_start (last g)) (seg_duration (last g)) \<and>
     c_duration c = fsub (c_end c) (c_start c) \<and>
     c_text c = py_join '' '' (map seg_text g) \<and>
     c_segments c = length g \<and>
     (accumulated g \<le> mx \<or> length g = 1 \<or> accumulated (butlast g) < mn)"

lemma inner_loop_cap:
  "inner_loop segments mn mx t i cs ct cur = (i', cs', ct', cur') \<longrightarrow> i < i' \<longrightarrow>
     consumes mn mx t (cs @ butlast (take (i' - i) (drop i segments)))
       (foldl fadd cur (map seg_duration (butlast (take (i' - i) (drop i segments)))))
       (seg_duration (last (take (i' - i) (drop i segments))))"
proof (induction i cs ct cur rule: inner_loop_induct [of segments mn mx t])
  case (step i cs ct cur)
  show ?case
  proof (cases "i < length segments")
    case False
    then show ?thesis by (simp add: inner_loop_end)
  next
    case lt: True
    show ?thesis
    proof (cases "consumes mn mx t cs cur (seg_duration (segments ! i))")
      case False
      with lt show ?thesis by (simp add: inner_loop_break)
    next
      case True
      note IH = step [OF lt True]
      show ?thesis
      proof (intro impI)
        assume "inner_loop segments mn mx t i cs ct cur = (i', cs', ct', cur')"
        with lt True have r: "inner_loop segments mn mx t (Suc i) (cs @ [segments ! i])
            (ct @ [seg_text (segments ! i)]) (fadd cur (seg_duration (segments ! i))) =
            (i', cs', ct', cur')"
          by (simp add: inner_loop_take)
        note sp = inner_loop_spec [rule_format, OF r]
        from sp have ii: "i < i'" by simp
        let ?rest = "take (i' - Suc i) (drop (Suc i) segments)"
        note td = take_drop_step [OF lt ii]
        show "consumes mn mx t (cs @ butlast (take (i' - i) (drop i segments)))
            (foldl fadd cur (map seg_duration (butlast (take (i' - i) (drop i segments)))))
            (seg_duration (last (take (i' - i) (drop i segments))))"
        proof (cases "Suc i < i'")
          case far: True
          from sp lt have "i' \<le> length segments" by simp
          with far have ne: "?rest \<noteq> []" by simp
          from IH r far have "consumes mn mx t ((cs @ [segments ! i]) @ butlast ?rest)
              (foldl fadd (fadd cur (seg_duration (segments ! i))) (map seg_duration (butlast ?rest)))
              (seg_duration (last ?rest))"
            by simp
          with ne show ?thesis by (simp add: td)
        next
          case False
          with ii have "i' = Suc i" by simp
          with td have "take (i' - i) (drop i segments) = [segments ! i]" by simp
          with True show ?thesis by (simp only: butlast.simps last.simps) simp
        qed
      qed
    qed
  qed
qed

lemma outer_loop_done:
  "\<not> i < length segments \<Longrightarrow> outer_loop segments mn mx d k i n chunks = chunks"
  by (subst outer_loop.simps) simp

lemma next_cursor_bounds:
  assumes "i < length segments"
  shows "i < next_cursor segments mn mx t i" and "next_cursor segments mn mx t i \<le> length segments"
proof -
  obtain i' cs ct cur where r: "inner_loop segments mn mx t i [] [] 0 = (i', cs, ct, cur)"
    by (cases "inner_loop segments mn mx t i [] [] 0") auto
  from inner_loop_advance [OF assms r] r
  show "i < next_cursor segments mn mx t i" and "next_cursor segments mn mx t i \<le> length segments"
    by (simp_all add: next_cursor_def)
qed

lemma hd_slice:
  "i < length xs \<Longrightarrow> i < i' \<Longrightarrow> hd (take (i' - i) (drop i xs)) = xs ! i"
  by (simp add: take_drop_step)

lemma outer_loop_unfold:
  assumes lt: "i < length segments"
  shows "outer_loop segments mn mx d k i n chunks =
     outer_loop segments mn mx d (Suc k) (next_cursor segments mn mx (d k) i) (Suc n)
       (chunks @ [chunk_of n (d k)
          (take (next_cursor segments mn mx (d k) i - i) (drop i segments))])"
proof -
  obtain i' cs ct cur where r: "inner_loop segments mn mx (d k) i [] [] 0 = (i', cs, ct, cur)"
    by (cases "inner_loop segments mn mx (d k) i [] [] 0") auto
  then have nc: "next_cursor segments mn mx (d k) i = i'"
    by (simp add: next_cursor_def)
  from inner_loop_advance [OF lt r] have ii: "i < i'" "i' \<le> length segments" .
  from inner_loop_spec [rule_format, OF r]
  have cs: "cs = take (i' - i) (drop i segments)" and ct: "ct = map seg_text cs"
    by simp_all
  from lt ii have ne: "cs \<noteq> []" by (simp add: cs)
  from hd_slice [OF lt ii(1)] have hd: "hd cs = segments ! i" by (simp only: cs)
  from ii have len: "length cs = i' - i" by (simp add: cs)
  show ?thesis
    apply (subst outer_loop.simps)
    apply (simp add: lt r nc ne Let_def chunk_of_def ct hd)
    apply (simp add: cs hd_slice [OF lt ii(1)])
    done
qed

lemma outer_loop_induct [consumes 0, case_names step]:
  assumes "\<And>k i n.
     (i < length segments \<Longrightarrow> P (Suc k) (next_cursor segments mn mx (d k) i) (Suc n))
     \<Longrightarrow> P k i n"
  shows "P k i n"
proof -
  have main: "P k i n" if "m = length segments - i" for m k i n
    using that
  proof (induction m arbitrary: k i n rule: less_induct)
    case (less m)
    show ?case
      apply (rule assms)
      apply (rule less.IH [OF _ refl])
      using less.prems next_cursor_bounds [of _ segments mn mx] apply (simp add: diff_less_mono2)
      done
  qed
  show ?thesis by (rule main) (rule refl)
qed

lemma outer_loop_acc:
  "\<forall>chunks. outer_loop segments mn mx d k i n chunks =
     chunks @ outer_loop segments mn mx d k i n []"
proof (induction k i n rule: outer_loop_induct [of segments _ mn mx d])
  case (step k i n)
  show ?case
  proof (cases "i < length segments")
    case False
    then show ?thesis by (simp add: outer_loop_done)
  next
    case True
    let ?i' = "next_cursor segments mn mx (d k) i"
    let ?c = "chunk_of n (d k) (take (?i' - i) (drop i segments))"
    from step [OF True]
    have IH: "outer_loop segments mn mx d (Suc k) ?i' (Suc n) c =
        c @ outer_loop segments mn mx d (Suc k) ?i' (Suc n) []" for c
      by (rule spec)
    show ?thesis
    proof
      fix chunks
      have "outer_loop segments mn mx d k i n chunks =
          (chunks @ [?c]) @ outer_loop segments mn mx d (Suc k) ?i' (Suc n) []"
        by (subst outer_loop_unfold [OF True]) (rule IH)
      moreover have "outer_loop segments mn mx d k i n [] =
          ([] @ [?c]) @ outer_loop segments mn mx d (Suc k) ?i' (Suc n) []"
        by (subst outer_loop_unfold [OF True]) (rule IH)
      ultimately show "outer_loop segments mn mx d k i n chunks =
          chunks @ outer_loop segments mn mx d k i n []"
        by simp
    qed
  qed
qed

lemma outer_loop_step:
  assumes lt: "i < length segments"
  shows "outer_loop segments mn mx d k i n [] =
     chunk_of n (d k) (take (next_cursor segments mn mx (d k) i - i) (drop i segments)) #
       outer_loop segments mn mx d (Suc k) (next_cursor segments mn mx (d k) i) (Suc n) []"
  by (subst outer_loop_unfold [OF lt], subst outer_loop_acc [rule_format]) simp

lemma accumulated_snoc:
  "g \<noteq> [] \<Longrightarrow> accumulated g = fadd (accumulated (butlast g)) (seg_duration (last g))"
proof -
  assume "g \<noteq> []"
  then have "g = butlast g @ [last g]" by simp
  then have "accumulated g = accumulated (butlast g @ [last g])" by simp
  then show ?thesis by (simp add: accumulated_def)
qed

lemma group_facts:
  fixes segments :: "segment list" and mn mx t :: real and i :: nat
  assumes lt: "i < length segments"
  defines "i' \<equiv> next_cursor segments mn mx t i"
  defines "g \<equiv> take (i' - i) (drop i segments)"
  shows "g \<noteq> []" and "length g = i' - i"
    and "i' < length segments \<Longrightarrow> mn \<le> accumulated g"
    and "accumulated g \<le> mx \<or> length g = 1 \<or> accumulated (butlast g) < mn"
proof -
  obtain j cs ct cur where r: "inner_loop segments mn mx t i [] [] 0 = (j, cs, ct, cur)"
    by (cases "inner_loop segments mn mx t i [] [] 0") auto
  then have j: "j = i'" by (simp add: i'_def next_cursor_def)
  note b = next_cursor_bounds [OF lt, of mn mx t, folded i'_def]
  from inner_loop_spec [rule_format, OF r] j
  have cs: "cs = g" and cur: "cur = accumulated g"
    and stop: "i' < length segments \<Longrightarrow> \<not> consumes mn mx t g cur (seg_duration (segments ! i'))"
    by (auto simp add: g_def accumulated_def)
  from b lt show ne: "g \<noteq> []" by (simp add: g_def)
  from b show "length g = i' - i" by (simp add: g_def)
  show "mn \<le> accumulated g" if "i' < length segments"
    using stop [OF that] by (simp add: consumes_def cur)
  from inner_loop_cap [rule_format, OF r] b j
  have "consumes mn mx t (butlast g) (accumulated (butlast g)) (seg_duration (last g))"
    by (simp add: g_def accumulated_def)
  then consider "butlast g = []" | "accumulated (butlast g) < mn"
    | "fadd (accumulated (butlast g)) (seg_duration (last g)) \<le> mx"
    by (auto simp: consumes_def)
  then show "accumulated g \<le> mx \<or> length g = 1 \<or> accumulated (butlast g) < mn"
  proof cases
    case 1
    with ne have "length g = 1" by (cases g) (auto split: if_splits)
    then show ?thesis by simp
  next
    case 2
    then show ?thesis by simp
  next
    case 3
    with ne show ?thesis by (simp add: accumulated_snoc)
  qed
qed

lemma built_from_chunk_of:
  "g \<noteq> [] \<Longrightarrow> accumulated g \<le> mx \<or> length g = 1 \<or> accumulated (butlast g) < mn \<Longrightarrow>
     built_from mn mx (chunk_of n t g) g"
  by (simp add: built_from_def chunk_of_def)

lemma outer_loop_cover:
  "i \<le> length segments \<longrightarrow>
     concat (chunk_cover (outer_loop segments mn mx d k i n []) (drop i segments)) = drop i segments \<and>
     list_all2 (built_from mn mx) (outer_loop segments mn mx d k i n [])
       (chunk_cover (outer_loop segments mn mx d k i n []) (drop i segments)) \<and>
     (\<forall>g \<in> set (butlast (chunk_cover (outer_loop segments mn mx d k i n []) (drop i segments))).
        mn \<le> accumulated g)"
proof (induction k i n rule: outer_loop_induct [of segments _ mn mx d])
  case (step k i n)
  show ?case
  proof (cases "i < length segments")
    case False
    then show ?thesis by (simp add: outer_loop_done chunk_cover_def)
  next
    case True
    let ?i' = "next_cursor segments mn mx (d k) i"
    let ?g = "take (?i' - i) (drop i segments)"
    let ?rest = "outer_loop segments mn mx d (Suc k) ?i' (Suc n) []"
    note gf = group_facts [OF True, of mn mx "d k"]
    note b = next_cursor_bounds [OF True, of mn mx "d k"]
    have un: "outer_loop segments mn mx d k i n [] = chunk_of n (d k) ?g # ?rest"
      by (rule outer_loop_step [OF True])
    from b have dr: "drop (?i' - i) (drop i segments) = drop ?i' segments" by simp
    have cov: "chunk_cover (chunk_of n (d k) ?g # ?rest) (drop i segments) =
        ?g # chunk_cover ?rest (drop ?i' segments)"
      using gf(2) b by (simp add: chunk_cover_def chunk_of_def dr)
    from step [OF True] b
    have IH: "concat (chunk_cover ?rest (drop ?i' segments)) = drop ?i' segments"
      "list_all2 (built_from mn mx) ?rest (chunk_cover ?rest (drop ?i' segments))"
      "\<forall>g \<in> set (butlast (chunk_cover ?rest (drop ?i' segments))). mn \<le> accumulated g"
      by simp_all
    have c1: "concat (?g # chunk_cover ?rest (drop ?i' segments)) = drop i segments"
      using IH(1) dr by (simp del: drop_drop) (metis append_take_drop_id)
    have c2: "list_all2 (built_from mn mx) (chunk_of n (d k) ?g # ?rest)
        (?g # chunk_cover ?rest (drop ?i' segments))"
      using IH(2) gf(1,4) by (simp add: built_from_chunk_of)
    have c3: "\<forall>g \<in> set (butlast (?g # chunk_cover ?rest (drop ?i' segments))). mn \<le> accumulated g"
    proof (cases "?i' < length segments")
      case True
      with gf(3) IH(3) show ?thesis by auto
    next
      case False
      then have "?rest = []" by (simp add: outer_loop_done)
      then show ?thesis by (simp add: chunk_cover_def)
    qed
    from c1 c2 c3 show ?thesis by (simp only: un cov) simp
  qed
qed

lemma chunk_smart_duration_cover:
  shows "concat (chunk_cover (chunk_smart_duration segments mn mx d) segments) = segments"
    and "list_all2 (built_from mn mx) (chunk_smart_duration segments mn mx d)
           (chunk_cover (chunk_smart_duration segments mn mx d) segments)"
    and "\<forall>g \<in> set (butlast (chunk_cover (chunk_smart_duration segments mn mx d) segments)).
           mn \<le> accumulated g"
  using outer_loop_cover [of 0 segments mn mx d 0 0]
  by (simp_all add: chunk_smart_duration_def chunk_cover_def)


lemma list_all2_built_from_count:
  "list_all2 (built_from mn mx) cs gs \<Longrightarrow> c \<in> set cs \<Longrightarrow> 1 \<le> c_segments c"
  by (induction cs gs rule: list_all2_induct) (auto simp add: built_from_def Suc_le_eq)

lemma length_concat_nonempty:
  "\<forall>g \<in> set gs. g \<noteq> [] \<Longrightarrow> length gs \<le> length (concat gs)"
proof (induction gs)
  case Nil
  show ?case by simp
next
  case (Cons g gs)
  then have "length gs \<le> length (concat gs)" by simp
  moreover from Cons.prems have "Suc 0 \<le> length g" by (cases g) simp_all
  ultimately show ?case by simp
qed

lemma list_all2_built_from_nonempty:
  "list_all2 (built_from mn mx) cs gs \<Longrightarrow> \<forall>g \<in> set gs. g \<noteq> []"
  by (induction cs gs rule: list_all2_induct) (simp_all add: built_from_def)

lemma chunk_count_le:
  "length (chunk_smart_duration segments mn mx d) \<le> length segments"
proof -
  let ?cs = "chunk_smart_duration segments mn mx d"
  let ?gs = "chunk_cover ?cs segments"
  note c = chunk_smart_duration_cover [where segments = segments and mn = mn and mx = mx and d = d]
  from c(2) have "length ?cs = length ?gs" by (rule list_all2_lengthD)
  also from list_all2_built_from_nonempty [OF c(2)] have "\<dots> \<le> length (concat ?gs)"
    by (rule length_concat_nonempty)
  also from c(1) have "\<dots> = length segments" by simp
  finally show ?thesis .
qed

section \<open>Claims about the chunker\<close>


text \<open>
  Claim C4. Every chunk returned by \<open>chunk_smart_duration\<close> has a segment count of at
  least one, whatever the segments, the bounds and the draws are; the instance below runs an
  input whose first segment alone is longer than \<open>max_duration\<close>.
\<close>

theorem chunk_never_empty:
  "\<forall>c \<in> set (chunk_smart_duration segments mn mx draws). 1 \<le> c_segments c"
  using chunk_smart_duration_cover(2) [where segments = segments and mn = mn and mx = mx and d = draws]
  by (blast intro: list_all2_built_from_count)

lemma oversized_eval:
  "chunk_smart_duration
     [\<lparr>seg_start = 0, seg_duration = 45, seg_text = ''long''\<rparr>,
      \<lparr>seg_start = 45, seg_duration = 2, seg_text = ''short''\<rparr>] 20 30 (fixed_draw 25) =
   [\<lparr>c_chunk_id = 0, c_start = 0, c_end = 45, c_duration = 45, c_text = ''long'',
      c_segments = 1, c_target_duration = 25\<rparr>,
    \<lparr>c_chunk_id = 1, c_start = 45, c_end = 47, c_duration = 2, c_text = ''short'',
      c_segments = 1, c_target_duration = 25\<rparr>]"
  by code_simp

theorem chunk_never_empty_witness:
  "length (chunk_smart_duration
     [\<lparr>seg_start = 0, seg_duration = 45, seg_text = ''long''\<rparr>,
      \<lparr>seg_start = 45, seg_duration = 2, seg_text = ''short''\<rparr>] 20 30 (fixed_draw 25)) = 2 \<and>
   1 \<le> c_segments (chunk_smart_duration
     [\<lparr>seg_start = 0, seg_duration = 45, seg_text = ''long''\<rparr>,
      \<lparr>seg_start = 45, seg_duration = 2, seg_text = ''short''\<rparr>] 20 30 (fixed_draw 25) ! 0) \<and>
   1 \<le> c_segments (chunk_smart_duration
     [\<lparr>seg_start = 0, seg_duration = 45, seg_text = ''long''\<rparr>,
      \<lparr>seg_start = 45, seg_duration = 2, seg_text = ''short''\<rparr>] 20 30 (fixed_draw 25) ! 1)"
  using chunk_never_empty [where segments = "[\<lparr>seg_start = 0, seg_duration = 45, seg_text = ''long''\<rparr>,
      \<lparr>seg_start = 45, seg_duration = 2, seg_text = ''short''\<rparr>]" and mn = 20 and mx = 30
      and draws = "fixed_draw 25"]
  by (simp add: oversized_eval)

text \<open>
  Claim C10. \<open>chunk_smart_duration\<close> terminates on every finite segment list, segments
  of zero duration included. Both loops are total functions here, their termination
  having been proved from the cursor alone. The theorem states the reason: one pass of
  the inner loop started on an empty chunk at a cursor inside the list returns a strictly
  larger cursor that is still within the list, and the number of chunks, one per
  iteration of the outer loop, is at most the number of segments.
\<close>

theorem chunker_terminates:
  "(i < length segments \<longrightarrow>
      i < fst (inner_loop segments mn mx t i [] [] 0) \<and>
      fst (inner_loop segments mn mx t i [] [] 0) \<le> length segments) \<and>
   length (chunk_smart_duration segments mn mx draws) \<le> length segments"
  using next_cursor_bounds [where i = i and segments = segments and mn = mn and mx = mx and t = t]
    chunk_count_le [where segments = segments and mn = mn and mx = mx and d = draws]
  by (simp add: next_cursor_def)

theorem chunker_terminates_witness:
  "(0::nat) < length [\<lparr>seg_start = 0, seg_duration = 0, seg_text = ''a''\<rparr>,
       \<lparr>seg_start = 0, seg_duration = 0, seg_text = ''b''\<rparr>] \<and>
   0 < fst (inner_loop [\<lparr>seg_start = 0, seg_duration = 0, seg_text = ''a''\<rparr>,
       \<lparr>seg_start = 0, seg_duration = 0, seg_text = ''b''\<rparr>] 20 30 25 0 [] [] 0) \<and>
   fst (inner_loop [\<lparr>seg_start = 0, seg_duration = 0, seg_text = ''a''\<rparr>,
       \<lparr>seg_start = 0, seg_duration = 0, seg_text = ''b''\<rparr>] 20 30 25 0 [] [] 0) \<le> 2 \<and>
   length (chunk_smart_duration [\<lparr>seg_start = 0, seg_duration = 0, seg_text = ''a''\<rparr>,
       \<lparr>seg_start = 0, seg_duration = 0, seg_text = ''b''\<rparr>] 20 30 (fixed_draw 25)) \<le> 2"
  using chunker_terminates [where i = 0 and segments = "[\<lparr>seg_start = 0, seg_duration = 0, seg_text = ''a''\<rparr>,
       \<lparr>seg_start = 0, seg_duration = 0, seg_text = ''b''\<rparr>]" and mn = 20 and mx = 30 and t = 25
      and draws = "fixed_draw 25"]
  by simp

lemma nth_cover:
  assumes "j < length (chunk_smart_duration segments mn mx d)"
  shows "built_from mn mx (chunk_smart_duration segments mn mx d ! j)
           (chunk_cover (chunk_smart_duration segments mn mx d) segments ! j)"
    and "chunk_cover (chunk_smart_duration segments mn mx d) segments ! j
           \<in> set (chunk_cover (chunk_smart_duration segments mn mx d) segments)"
    and "Suc j < length (chunk_smart_duration segments mn mx d) \<Longrightarrow>
           mn \<le> accumulated (chunk_cover (chunk_smart_duration segments mn mx d) segments ! j)"
proof -
  let ?cs = "chunk_smart_duration segments mn mx d"
  let ?gs = "chunk_cover ?cs segments"
  note c = chunk_smart_duration_cover [where segments = segments and mn = mn and mx = mx and d = d]
  from c(2) have len: "length ?cs = length ?gs" by (rule list_all2_lengthD)
  from c(2) assms show "built_from mn mx (?cs ! j) (?gs ! j)" by (rule list_all2_nthD)
  from assms len show "?gs ! j \<in> set ?gs" by simp
  show "mn \<le> accumulated (?gs ! j)" if "Suc j < length ?cs"
  proof -
    from that len have "j < length (butlast ?gs)" by simp
    then have "butlast ?gs ! j \<in> set (butlast ?gs)" by (rule nth_mem)
    moreover from \<open>j < length (butlast ?gs)\<close> have "butlast ?gs ! j = ?gs ! j"
      by (rule nth_butlast)
    ultimately show ?thesis using c(3) by simp
  qed
qed


lemma fadd_threes:
  shows "fadd 0 3 = 3" and "fadd 3 3 = 6" and "fadd 6 3 = 9" and "fadd 9 3 = 12"
    and "fadd 12 3 = 15" and "fadd 15 3 = 18" and "fadd 18 3 = 21" and "fadd 21 3 = 24"
    and "fadd 24 3 = 27" and "fadd 27 3 = 30"
  by code_simp+

lemma fsub_thirty: "fsub 30 0 = 30"
  by code_simp

lemma scenario_unfold:
  "scenario_segments texts =
    [\<lparr>seg_start = 0, seg_duration = 3, seg_text = texts 0\<rparr>,
     \<lparr>seg_start = 3, seg_duration = 3, seg_text = texts 1\<rparr>,
     \<lparr>seg_start = 6, seg_duration = 3, seg_text = texts 2\<rparr>,
     \<lparr>seg_start = 9, seg_duration = 3, seg_text = texts 3\<rparr>,
     \<lparr>seg_start = 12, seg_duration = 3, seg_text = texts 4\<rparr>,
     \<lparr>seg_start = 15, seg_duration = 3, seg_text = texts 5\<rparr>,
     \<lparr>seg_start = 18, seg_duration = 3, seg_text = texts 6\<rparr>,
     \<lparr>seg_start = 21, seg_duration = 3, seg_text = texts 7\<rparr>,
     \<lparr>seg_start = 24, seg_duration = 3, seg_text = texts 8\<rparr>,
     \<lparr>seg_start = 27, seg_duration = 3, seg_text = texts 9\<rparr>]"
  by (simp add: scenario_segments_def upt_rec) (simp add: eval_nat_numeral)

lemma scenario_cursor_first:
  shows "27 < t \<Longrightarrow> next_cursor (scenario_segments texts) 20 30 t 0 = 10"
    and "24 < t \<Longrightarrow> t \<le> 27 \<Longrightarrow> next_cursor (scenario_segments texts) 20 30 t 0 = 9"
    and "21 < t \<Longrightarrow> t \<le> 24 \<Longrightarrow> next_cursor (scenario_segments texts) 20 30 t 0 = 8"
    and "t \<le> 21 \<Longrightarrow> next_cursor (scenario_segments texts) 20 30 t 0 = 7"
  by (simp_all add: next_cursor_def scenario_unfold inner_loop_take inner_loop_break
      inner_loop_end consumes_def fadd_threes)

lemma scenario_cursor_second:
  shows "next_cursor (scenario_segments texts) 20 30 t 9 = 10"
    and "next_cursor (scenario_segments texts) 20 30 t 8 = 10"
    and "next_cursor (scenario_segments texts) 20 30 t 7 = 10"
  by (simp_all add: next_cursor_def scenario_unfold inner_loop_take inner_loop_break
      inner_loop_end consumes_def fadd_threes)

lemma scenario_length: "length (scenario_segments texts) = 10"
  by (simp add: scenario_segments_def)

lemma scenario_one_chunk_high:
  assumes "27 < draws 0"
  shows "chunk_smart_duration (scenario_segments texts) 20 30 draws =
     [\<lparr>c_chunk_id = 0, c_start = 0, c_end = 30, c_duration = 30,
       c_text = py_join '' '' (map texts [0..<10]), c_segments = 10,
       c_target_duration = draws 0\<rparr>]"
proof -
  have ne: "scenario_segments texts \<noteq> []" by (simp add: scenario_unfold)
  have "outer_loop (scenario_segments texts) 20 30 draws 0 0 0 [] =
      [chunk_of 0 (draws 0) (scenario_segments texts)]"
    using assms
    by (simp add: outer_loop_step outer_loop_done scenario_length scenario_cursor_first)
  moreover have "map seg_text (scenario_segments texts) = map texts [0..<10]"
    by (simp add: scenario_segments_def comp_def)
  ultimately show ?thesis
    using ne by (simp add: chunk_smart_duration_def chunk_of_def)
      (simp add: scenario_unfold fadd_threes fsub_thirty)
qed

lemma scenario_two_chunks_low:
  assumes "draws 0 \<le> 27"
  shows "length (chunk_smart_duration (scenario_segments texts) 20 30 draws) = 2"
proof -
  have ne: "scenario_segments texts \<noteq> []" by (simp add: scenario_unfold)
  consider "draws 0 \<le> 21" | "21 < draws 0" "draws 0 \<le> 24" | "24 < draws 0" "draws 0 \<le> 27"
    using assms by linarith
  then have "length (outer_loop (scenario_segments texts) 20 30 draws 0 0 0 []) = 2"
    by cases
      (simp_all add: outer_loop_step outer_loop_done scenario_length scenario_cursor_first
        scenario_cursor_second)
  with ne show ?thesis by (simp add: chunk_smart_duration_def)
qed

text \<open>
  Claim C3, as amended. On the ten-segment scenario with bounds 20 and 30, the chunker
  returns exactly one chunk, of ten segments and duration 30, whenever the first random
  draw is greater than 27; whenever the first draw is at most 27 it returns two chunks,
  because the first chunk stops as soon as its accumulated duration has reached both the
  minimum and the drawn target.
\<close>

theorem scenario_single_chunk_iff_high_draw:
  "(27 < draws 0 \<longrightarrow>
      chunk_smart_duration (scenario_segments texts) 20 30 draws =
        [\<lparr>c_chunk_id = 0, c_start = 0, c_end = 30, c_duration = 30,
          c_text = py_join '' '' (map texts [0..<10]), c_segments = 10,
          c_target_duration = draws 0\<rparr>]) \<and>
   (draws 0 \<le> 27 \<longrightarrow>
      length (chunk_smart_duration (scenario_segments texts) 20 30 draws) = 2)"
  using scenario_one_chunk_high [of draws texts] scenario_two_chunks_low [of draws texts]
  by blast

theorem scenario_single_chunk_iff_high_draw_witness:
  "27 < fixed_draw 28 0 \<and>
   map c_segments (chunk_smart_duration (scenario_segments word) 20 30 (fixed_draw 28)) = [10] \<and>
   map c_duration (chunk_smart_duration (scenario_segments word) 20 30 (fixed_draw 28)) = [30] \<and>
   fixed_draw 22 0 \<le> 27 \<and>
   length (chunk_smart_duration (scenario_segments word) 20 30 (fixed_draw 22)) = 2"
  using scenario_single_chunk_iff_high_draw [of "fixed_draw 28" word]
    scenario_single_chunk_iff_high_draw [of "fixed_draw 22" word]
  by (simp add: fixed_draw_def)

text \<open>
  Claim C3 as stated fails: the draw 20.5 lies in the interval from 20 to 30, and with
  it the scenario is cut into a chunk of seven segments (21 seconds) and one of three.
\<close>

theorem scenario_low_draw_counterexample:
  "(20::real) \<le> 41 / 2 \<and> (41 / 2 :: real) \<le> 30 \<and>
   map c_segments
     (chunk_smart_duration (scenario_segments word) 20 30 (fixed_draw (41 / 2))) = [7, 3] \<and>
   map c_duration
     (chunk_smart_duration (scenario_segments word) 20 30 (fixed_draw (41 / 2))) = [21, 9]"
  by code_simp

lemma scenario_low_eval:
  "chunk_smart_duration (scenario_segments word) 20 30 (fixed_draw (41 / 2)) =
    [\<lparr>c_chunk_id = 0, c_start = 0, c_end = 21, c_duration = 21,
       c_text = ''w w w w w w w'', c_segments = 7, c_target_duration = 41 / 2\<rparr>,
     \<lparr>c_chunk_id = 1, c_start = 21, c_end = 30, c_duration = 9,
       c_text = ''w w w'', c_segments = 3, c_target_duration = 41 / 2\<rparr>]"
  by code_simp


text \<open>
  Claim C5, as amended. For every input and all draws, every chunk except possibly the
  last has an accumulated duration of at least \<open>min_duration\<close>: the sum of its segments'
  durations as the loop adds them up in floating point, which is the number the loop
  compares with the minimum before it may stop. The inner loop leaves segments behind
  only through its \<open>break\<close>, and that is guarded by this sum having reached the minimum.
  The \<open>duration\<close> field is computed from the start and end times instead and may be
  smaller.
\<close>

theorem non_final_chunks_accumulate_min:
  assumes "Suc j < length (chunk_smart_duration segments mn mx draws)"
  shows "mn \<le> accumulated
     (chunk_cover (chunk_smart_duration segments mn mx draws) segments ! j)"
proof -
  from assms have "j < length (chunk_smart_duration segments mn mx draws)" by simp
  from nth_cover(3) [OF this assms] show ?thesis .
qed

text \<open>The amended claim C5 on the scenario, cut into two chunks by the draw 20.5.\<close>

lemma scenario_low_cover:
  "chunk_cover (chunk_smart_duration (scenario_segments word) 20 30 (fixed_draw (41 / 2)))
     (scenario_segments word) ! 0 = take 7 (scenario_segments word)"
  by (simp add: scenario_low_eval chunk_cover_def)

lemma scenario_low_accumulated: "accumulated (take 7 (scenario_segments word)) = 21"
  by code_simp

theorem non_final_chunks_accumulate_min_witness:
  "Suc 0 < length (chunk_smart_duration (scenario_segments word) 20 30 (fixed_draw (41 / 2))) \<and>
   20 \<le> accumulated
     (chunk_cover (chunk_smart_duration (scenario_segments word) 20 30 (fixed_draw (41 / 2)))
        (scenario_segments word) ! 0)"
proof -
  have h: "Suc 0 < length (chunk_smart_duration (scenario_segments word) 20 30 (fixed_draw (41 / 2)))"
    by (simp add: scenario_low_eval)
  from non_final_chunks_accumulate_min [OF h] h show ?thesis by simp
qed

lemma short_by_rounding_eval:
  "chunk_smart_duration short_by_rounding 20 30 (fixed_draw 25) =
    [\<lparr>c_chunk_id = 0, c_start = 5 / 2 ^ 51, c_end = 20, c_duration = 20 - 1 / 2 ^ 48,
       c_text = ''a b c'', c_segments = 3, c_target_duration = 25\<rparr>,
     \<lparr>c_chunk_id = 1, c_start = 20, c_end = 31, c_duration = 11,
       c_text = ''d'', c_segments = 1, c_target_duration = 25\<rparr>]"
  by code_simp

lemma short_by_rounding_input:
  "doubles short_by_rounding \<and> contiguous short_by_rounding"
  by code_simp

text \<open>
  Claim C5 as stated fails. The four segments of \<open>short_by_rounding\<close> are floating-point
  numbers, in order, contiguous and of non-negative duration. The durations of the first
  three add up to exactly 20 in floating point, so the loop stops before the fourth, and
  the chunk of three segments is not the last. Its \<open>duration\<close>, the rounded difference of
  its end 20 and its start, is one unit in the last place below 20.
\<close>

theorem reported_duration_below_min_counterexample:
  "doubles short_by_rounding \<and> contiguous short_by_rounding \<and>
   length (chunk_smart_duration short_by_rounding 20 30 (fixed_draw 25)) = 2 \<and>
   c_segments (chunk_smart_duration short_by_rounding 20 30 (fixed_draw 25) ! 0) = 3 \<and>
   c_duration (chunk_smart_duration short_by_rounding 20 30 (fixed_draw 25) ! 0) < 20"
  by (simp add: short_by_rounding_eval short_by_rounding_input)

text \<open>
  Claim C2, as amended. For every input and all draws, the accumulated duration of a
  chunk, the floating-point sum the loop compares with the bounds, exceeds
  \<open>max_duration\<close> only when the chunk's last segment was consumed without looking at
  the maximum: the chunk is a single segment, or the accumulated duration of the
  segments before its last one was still below \<open>min_duration\<close>.
\<close>

theorem accumulated_over_max_only_unconditionally:
  assumes "j < length (chunk_smart_duration segments mn mx draws)"
  shows "accumulated (chunk_cover (chunk_smart_duration segments mn mx draws) segments ! j) \<le> mx \<or>
     c_segments (chunk_smart_duration segments mn mx draws ! j) = 1 \<or>
     accumulated
       (butlast (chunk_cover (chunk_smart_duration segments mn mx draws) segments ! j)) < mn"
  using nth_cover(1) [OF assms] by (auto simp add: built_from_def)

lemma overshoot_eval:
  "chunk_smart_duration
     [\<lparr>seg_start = 0, seg_duration = 19, seg_text = ''a''\<rparr>,
      \<lparr>seg_start = 19, seg_duration = 15, seg_text = ''b''\<rparr>] 20 30 (fixed_draw 25) =
    [\<lparr>c_chunk_id = 0, c_start = 0, c_end = 34, c_duration = 34, c_text = ''a b'',
       c_segments = 2, c_target_duration = 25\<rparr>]"
  by code_simp


lemma long_by_rounding_eval:
  "chunk_smart_duration long_by_rounding 20 30 (fixed_draw 25) =
    [\<lparr>c_chunk_id = 0, c_start = 3 / 2 ^ 51, c_end = 30 + 1 / 2 ^ 48,
       c_duration = 30 + 1 / 2 ^ 48, c_text = ''a b c d'', c_segments = 4,
       c_target_duration = 25\<rparr>]"
  by code_simp

lemma long_by_rounding_input:
  "doubles long_by_rounding \<and> contiguous long_by_rounding \<and>
   accumulated (butlast long_by_rounding) = 21 \<and> accumulated long_by_rounding = 30"
  by code_simp

text \<open>
  Claim C2 as stated fails twice. A segment of 19 seconds followed by one of 15 seconds
  gives one chunk of two segments that lasts 34 seconds: the second segment is consumed
  in the branch that only looks at the minimum. And on \<open>long_by_rounding\<close>, which is
  contiguous, the loop consumes the fourth segment when the accumulated duration is 21
  and the new one exactly 30, yet the \<open>duration\<close> field of the chunk, computed from its
  start and end, is one unit in the last place above 30.
\<close>

theorem duration_over_max_counterexample:
  "length (chunk_smart_duration
     [\<lparr>seg_start = 0, seg_duration = 19, seg_text = ''a''\<rparr>,
      \<lparr>seg_start = 19, seg_duration = 15, seg_text = ''b''\<rparr>] 20 30 (fixed_draw 25)) = 1 \<and>
   30 < c_duration (chunk_smart_duration
     [\<lparr>seg_start = 0, seg_duration = 19, seg_text = ''a''\<rparr>,
      \<lparr>seg_start = 19, seg_duration = 15, seg_text = ''b''\<rparr>] 20 30 (fixed_draw 25) ! 0) \<and>
   c_segments (chunk_smart_duration
     [\<lparr>seg_start = 0, seg_duration = 19, seg_text = ''a''\<rparr>,
      \<lparr>seg_start = 19, seg_duration = 15, seg_text = ''b''\<rparr>] 20 30 (fixed_draw 25) ! 0) = 2 \<and>
   doubles long_by_rounding \<and> contiguous long_by_rounding \<and>
   length (chunk_smart_duration long_by_rounding 20 30 (fixed_draw 25)) = 1 \<and>
   c_segments (chunk_smart_duration long_by_rounding 20 30 (fixed_draw 25) ! 0) = 4 \<and>
   30 < c_duration (chunk_smart_duration long_by_rounding 20 30 (fixed_draw 25) ! 0) \<and>
   20 \<le> accumulated (butlast long_by_rounding) \<and>
   accumulated long_by_rounding \<le> 30"
  by (simp add: overshoot_eval long_by_rounding_eval long_by_rounding_input)

text \<open>The amended claim C2 on the first of these inputs.\<close>

lemma overshoot_accumulated:
  "accumulated (butlast [\<lparr>seg_start = 0, seg_duration = 19, seg_text = ''a''\<rparr>,
      \<lparr>seg_start = 19, seg_duration = 15, seg_text = ''b''\<rparr>]) = 19"
  by code_simp

theorem accumulated_over_max_only_unconditionally_witness:
  "0 < length (chunk_smart_duration
     [\<lparr>seg_start = 0, seg_duration = 19, seg_text = ''a''\<rparr>,
      \<lparr>seg_start = 19, seg_duration = 15, seg_text = ''b''\<rparr>] 20 30 (fixed_draw 25)) \<and>
   accumulated (butlast (chunk_cover (chunk_smart_duration
     [\<lparr>seg_start = 0, seg_duration = 19, seg_text = ''a''\<rparr>,
      \<lparr>seg_start = 19, seg_duration = 15, seg_text = ''b''\<rparr>] 20 30 (fixed_draw 25))
     [\<lparr>seg_start = 0, seg_duration = 19, seg_text = ''a''\<rparr>,
      \<lparr>seg_start = 19, seg_duration = 15, seg_text = ''b''\<rparr>] ! 0)) < 20"
proof -
  let ?X = "[\<lparr>seg_start = 0, seg_duration = 19, seg_text = ''a''\<rparr>,
      \<lparr>seg_start = 19, seg_duration = 15, seg_text = ''b''\<rparr>]"
  have h: "0 < length (chunk_smart_duration ?X 20 30 (fixed_draw 25))"
    by (simp add: overshoot_eval)
  have c: "chunk_cover (chunk_smart_duration ?X 20 30 (fixed_draw 25)) ?X ! 0 = ?X"
    by (simp add: overshoot_eval chunk_cover_def)
  from accumulated_over_max_only_unconditionally [OF h] h show ?thesis
    by (simp only: c overshoot_accumulated) simp
qed

lemma ceiling_bounds:
  fixes n b :: nat
  assumes "0 < b"
  defines "m \<equiv> nat \<lceil>real n / real b\<rceil>"
  shows "n \<le> m * b" and "0 < m \<Longrightarrow> (m - 1) * b < n"
proof -
  from assms have nn: "0 \<le> real n / real b" by simp
  have "real n / real b \<le> real_of_int \<lceil>real n / real b\<rceil>" by (rule le_of_int_ceiling)
  also have "\<dots> = real m" using nn by (simp add: m_def)
  finally have "real n \<le> real m * real b" using assms(1) by (simp add: field_simps)
  then have "real n \<le> real (m * b)" by simp
  then show "n \<le> m * b" by (simp only: of_nat_le_iff)
  show "(m - 1) * b < n" if "0 < m"
  proof -
    have "real_of_int \<lceil>real n / real b\<rceil> - 1 < real n / real b" by linarith
    moreover have "real_of_int \<lceil>real n / real b\<rceil> = real m" using nn by (simp add: m_def)
    moreover from that have "real (m - 1) = real m - 1" by (simp add: of_nat_diff)
    ultimately have "real (m - 1) < real n / real b" by simp
    then have "real (m - 1) * real b < real n" using assms(1) by (simp add: field_simps)
    then have "real ((m - 1) * b) < real n" by simp
    then show ?thesis by (simp only: of_nat_less_iff)
  qed
qed

lemma concat_batches:
  "concat (map (batch_ids b xs) [0..<m]) = take (m * b) xs"
proof (induction m)
  case 0
  show ?case by simp
next
  case (Suc m)
  have "batch_ids b xs m = drop (m * b) (take (Suc m * b) xs)"
    by (simp add: batch_ids_def py_slice_def Let_def min_def)
  moreover have "take (m * b) xs = take (m * b) (take (Suc m * b) xs)"
    by (simp add: min_def)
  ultimately have "take (m * b) xs @ batch_ids b xs m = take (Suc m * b) xs"
    by (simp only: append_take_drop_id)
  with Suc show ?case by simp
qed

lemma length_batch_ids:
  "length (batch_ids b xs i) = min ((i + 1) * b) (length xs) - i * b"
  by (simp add: batch_ids_def py_slice_def Let_def)

section \<open>Claims about the splitter\<close>

text \<open>
  Claim C9. For a positive batch size the splitter returns \<open>ceil(n / batch_size)\<close>
  batches whose concatenation is the identifier list itself, so they are contiguous,
  in the original order, do not overlap and cover every identifier exactly once; every
  batch but the last has exactly \<open>batch_size\<close> identifiers and the last has between one and
  \<open>batch_size\<close>. The result is a function of the list and the size alone. With 120
  identifiers and size 50 the batch sizes are 50, 50 and 20.
\<close>

theorem splitter_partitions:
  assumes "0 < batch_size"
  shows "\<exists>batches. create_batches batch_size video_ids = Some batches \<and>
     length batches = nat \<lceil>real (length video_ids) / real batch_size\<rceil> \<and>
     concat batches = video_ids \<and>
     (\<forall>i. Suc i < length batches \<longrightarrow> length (batches ! i) = batch_size) \<and>
     (batches \<noteq> [] \<longrightarrow> 0 < length (last batches) \<and> length (last batches) \<le> batch_size) \<and>
     (batch_size = 50 \<and> length video_ids = 120 \<longrightarrow> map length batches = [50, 50, 20])"
proof -
  define n where "n = length video_ids"
  define m where "m = nat \<lceil>real n / real batch_size\<rceil>"
  define batches where "batches = map (batch_ids batch_size video_ids) [0..<m]"
  note cb = ceiling_bounds [OF assms, of n, folded m_def]
  have len: "length batches = m" by (simp add: batches_def)
  have c: "create_batches batch_size video_ids = Some batches"
    using assms by (simp add: create_batches_def num_batches_def batches_def m_def n_def)
  have cc: "concat batches = video_ids"
    using cb(1) by (simp add: batches_def concat_batches n_def)
  have full: "length (batches ! i) = batch_size" if "Suc i < length batches" for i
  proof -
    from that len have i: "Suc i < m" by simp
    then have "Suc i \<le> m - 1" by simp
    then have "Suc i * batch_size \<le> (m - 1) * batch_size" by (rule mult_le_mono1)
    also from i cb(2) have "\<dots> < n" by simp
    finally have "Suc i * batch_size \<le> n" by simp
    then have "min ((i + 1) * batch_size) (length video_ids) - i * batch_size = batch_size"
      by (simp add: n_def)
    with i show ?thesis by (simp add: batches_def length_batch_ids del: mult_Suc)
  qed
  have lst: "0 < length (last batches) \<and> length (last batches) \<le> batch_size" if "batches \<noteq> []"
  proof -
    from that len have m: "0 < m" by (cases m) auto
    with that have "last batches = batch_ids batch_size video_ids (m - 1)"
      by (simp add: batches_def last_map)
    then have "length (last batches) = min (m * batch_size) n - (m - 1) * batch_size"
      using m by (simp add: length_batch_ids n_def)
    also from cb(1) have "\<dots> = n - (m - 1) * batch_size" by simp
    finally have l: "length (last batches) = n - (m - 1) * batch_size" .
    from m have "m * batch_size = (m - 1) * batch_size + batch_size"
      by (cases m) simp_all
    with cb(1) cb(2) [OF m] l show ?thesis by simp
  qed
  have sc: "map length batches = [50, 50, 20]" if "batch_size = 50 \<and> length video_ids = 120"
  proof -
    from that have "m = 3" by (simp add: m_def n_def)
    then have "[0..<m] = [0, 1, 2]" by (simp add: upt_rec)
    with that show ?thesis by (simp add: batches_def length_batch_ids)
  qed
  from len have len': "length batches = nat \<lceil>real (length video_ids) / real batch_size\<rceil>"
    by (simp add: m_def n_def)
  show ?thesis
    apply (rule exI [of _ batches])
    apply (intro conjI allI impI)
         apply (rule c)
        apply (rule len')
       apply (rule cc)
      apply (erule full)
     apply (erule lst [THEN conjunct1])
     apply (erule lst [THEN conjunct2])
    apply (erule sc)
    done
qed

lemma small_split_eval:
  "create_batches 2 [''a'', ''b'', ''c''] = Some [[''a'', ''b''], [''c'']]"
  by (simp add: create_batches_def num_batches_def batch_ids_def py_slice_def upt_rec)

theorem splitter_partitions_witness:
  "0 < VIDEOS_PER_BATCH \<and> VIDEOS_PER_BATCH = 50 \<and> length (numbered_ids 120) = 120 \<and>
   map length (the (create_batches VIDEOS_PER_BATCH (numbered_ids 120))) = [50, 50, 20] \<and>
   concat (the (create_batches VIDEOS_PER_BATCH (numbered_ids 120))) = numbered_ids 120 \<and>
   create_batches 2 [''a'', ''b'', ''c''] = Some [[''a'', ''b''], [''c'']]"
proof -
  have v: "VIDEOS_PER_BATCH = 50" by (simp add: VIDEOS_PER_BATCH_def)
  have h: "0 < VIDEOS_PER_BATCH" by (simp add: v)
  have l: "length (numbered_ids 120) = 120" by (simp add: numbered_ids_def)
  from splitter_partitions [OF h, of "numbered_ids 120"]
  obtain batches where b: "create_batches VIDEOS_PER_BATCH (numbered_ids 120) = Some batches"
    and c: "concat batches = numbered_ids 120"
    and s: "VIDEOS_PER_BATCH = 50 \<and> length (numbered_ids 120) = 120 \<longrightarrow>
       map length batches = [50, 50, 20]"
    by (elim exE conjE)
  from s v l have "map length batches = [50, 50, 20]" by (simp only: simp_thms)
  with b c v h l small_split_eval show ?thesis by (simp only: option.sel) 
qed



section \<open>Claims about the merger\<close>



section \<open>Claims about the main loop\<close>

text \<open>
  The two behaviours claim C7 describes hold whenever the error text is recognised, or is
  not recognised and its first hundred characters are not the word the loop tests for.
\<close>

lemma rate_limit_stops:
  assumes "provider video_id = Inl error_msg"
    and "py_in ''429'' error_msg \<or> py_in ''Too Many Requests'' error_msg"
  shows "main_loop provider draws st (video_id # rest) =
     st\<lparr>fetched := fetched st @ [video_id], rate_limited := True\<rparr>"
  using assms by (simp add: download_transcript_chunks_def)

lemma other_error_continues:
  assumes "provider video_id = Inl error_msg"
    and "\<not> py_in ''429'' error_msg" and "\<not> py_in ''Too Many Requests'' error_msg"
    and "take 100 error_msg \<noteq> ''RateLimited''"
  shows "main_loop provider draws st (video_id # rest) =
     main_loop provider draws
       (after_video (st\<lparr>fetched := fetched st @ [video_id]\<rparr>) video_id
          (Failure (take 100 error_msg))) rest"
  using assms by (simp add: download_transcript_chunks_def)

lemma after_video_fields:
  shows "processed (after_video st v r) = Suc (processed st)"
    and "length (results (after_video st v r)) = Suc (length (results st))"
    and "rate_limited (after_video st v r) = rate_limited st"
    and "downloaded (after_video st v r) = downloaded st"
  by (simp_all add: after_video_def save_progress_def Let_def)

lemma after_video_writes:
  "progress_writes (after_video st v r) =
     (if Suc (processed st) mod SAVE_EVERY = 0 then progress_writes st @ [downloaded st]
      else progress_writes st)"
  by (simp add: after_video_def save_progress_def Let_def)

lemma main_loop_step:
  "main_loop provider draws st (v # rest) =
     (case download_transcript_chunks (draws v) (provider v) of
        Success n d avg_dur \<Rightarrow>
          main_loop provider draws
            (after_video
               (st\<lparr>fetched := fetched st @ [v],
                   all_chunk_durations := all_chunk_durations st @ [avg_dur],
                   downloaded := insert v (downloaded st)\<rparr>)
               v (Success n d avg_dur)) rest
      | Failure e \<Rightarrow>
          if e = ''RateLimited'' then st\<lparr>fetched := fetched st @ [v], rate_limited := True\<rparr>
          else main_loop provider draws
                 (after_video (st\<lparr>fetched := fetched st @ [v]\<rparr>) v (Failure e)) rest)"
  by (simp add: Let_def split: download_result.splits)

declare main_loop.simps(2) [simp del]

lemma main_loop_counts:
  "length (progress_writes (main_loop provider draws st xs)) + processed st div SAVE_EVERY =
     length (progress_writes st) + processed (main_loop provider draws st xs) div SAVE_EVERY \<and>
   processed (main_loop provider draws st xs) + length (results st) =
     processed st + length (results (main_loop provider draws st xs))"
proof (induction xs arbitrary: st)
  case Nil
  show ?case by simp
next
  case (Cons v rest)
  have step: "length (progress_writes (after_video s v r)) + processed s div SAVE_EVERY =
      length (progress_writes s) + processed (after_video s v r) div SAVE_EVERY" for s r
    by (simp add: after_video_writes after_video_fields div_Suc)
  show ?case
  proof (cases "download_transcript_chunks (draws v) (provider v)")
    case (Success n d avg_dur)
    let ?s = "st\<lparr>fetched := fetched st @ [v],
                   all_chunk_durations := all_chunk_durations st @ [avg_dur],
                   downloaded := insert v (downloaded st)\<rparr>"
    from Cons.IH [of "after_video ?s v (Success n d avg_dur)"] step [of ?s "Success n d avg_dur"]
    show ?thesis
      by (simp add: main_loop_step Success after_video_fields)
  next
    case (Failure e)
    let ?s = "st\<lparr>fetched := fetched st @ [v]\<rparr>"
    from Cons.IH [of "after_video ?s v (Failure e)"] step [of ?s "Failure e"]
    show ?thesis
      by (simp add: main_loop_step Failure after_video_fields)
  qed
qed

lemma main_loop_append:
  "\<not> rate_limited st \<Longrightarrow>
   main_loop provider draws st (xs @ ys) =
     (if rate_limited (main_loop provider draws st xs) then main_loop provider draws st xs
      else main_loop provider draws (main_loop provider draws st xs) ys)"
proof (induction xs arbitrary: st)
  case Nil
  then show ?case by simp
next
  case (Cons v rest)
  show ?case
  proof (cases "download_transcript_chunks (draws v) (provider v)")
    case (Success n d avg_dur)
    let ?s = "after_video (st\<lparr>fetched := fetched st @ [v],
                   all_chunk_durations := all_chunk_durations st @ [avg_dur],
                   downloaded := insert v (downloaded st)\<rparr>) v (Success n d avg_dur)"
    from Cons.prems have "\<not> rate_limited ?s" by (simp add: after_video_fields)
    from Cons.IH [OF this] show ?thesis by (simp add: main_loop_step Success)
  next
    case (Failure e)
    let ?s = "after_video (st\<lparr>fetched := fetched st @ [v]\<rparr>) v (Failure e)"
    from Cons.prems have "\<not> rate_limited ?s" by (simp add: after_video_fields)
    from Cons.IH [OF this] show ?thesis by (simp add: main_loop_step Failure)
  qed
qed

lemma main_loop_processed:
  "\<not> rate_limited st \<Longrightarrow>
   (rate_limited (main_loop provider draws st xs) \<longrightarrow>
      processed (main_loop provider draws st xs) < processed st + length xs) \<and>
   (\<not> rate_limited (main_loop provider draws st xs) \<longrightarrow>
      processed (main_loop provider draws st xs) = processed st + length xs)"
proof (induction xs arbitrary: st)
  case Nil
  then show ?case by simp
next
  case (Cons v rest)
  show ?case
  proof (cases "download_transcript_chunks (draws v) (provider v)")
    case (Success n d avg_dur)
    let ?s = "after_video (st\<lparr>fetched := fetched st @ [v],
                   all_chunk_durations := all_chunk_durations st @ [avg_dur],
                   downloaded := insert v (downloaded st)\<rparr>) v (Success n d avg_dur)"
    from Cons.prems have "\<not> rate_limited ?s" by (simp add: after_video_fields)
    from Cons.IH [OF this] show ?thesis
      by (simp add: main_loop_step Success after_video_fields)
  next
    case (Failure e)
    let ?s = "after_video (st\<lparr>fetched := fetched st @ [v]\<rparr>) v (Failure e)"
    from Cons.prems have "\<not> rate_limited ?s" by (simp add: after_video_fields)
    from Cons.IH [OF this] show ?thesis
      by (simp add: main_loop_step Failure after_video_fields)
  qed
qed

lemma main_loop_writes_extend:
  "\<exists>more. progress_writes (main_loop provider draws st xs) = progress_writes st @ more"
proof (induction xs arbitrary: st)
  case Nil
  show ?case by simp
next
  case (Cons v rest)
  have aw: "\<exists>more. progress_writes (after_video s v r) = progress_writes s @ more" for s r
    by (simp add: after_video_writes)
  show ?case
  proof (cases "download_transcript_chunks (draws v) (provider v)")
    case (Success n d avg_dur)
    let ?s0 = "st\<lparr>fetched := fetched st @ [v],
                   all_chunk_durations := all_chunk_durations st @ [avg_dur],
                   downloaded := insert v (downloaded st)\<rparr>"
    from aw [of ?s0 "Success n d avg_dur"] obtain m1
      where "progress_writes (after_video ?s0 v (Success n d avg_dur)) = progress_writes st @ m1"
      by auto
    moreover from Cons.IH [of "after_video ?s0 v (Success n d avg_dur)"] obtain m2
      where "progress_writes (main_loop provider draws (after_video ?s0 v (Success n d avg_dur)) rest)
        = progress_writes (after_video ?s0 v (Success n d avg_dur)) @ m2" by auto
    ultimately show ?thesis by (simp add: main_loop_step Success)
  next
    case (Failure e)
    let ?s0 = "st\<lparr>fetched := fetched st @ [v]\<rparr>"
    from aw [of ?s0 "Failure e"] obtain m1
      where "progress_writes (after_video ?s0 v (Failure e)) = progress_writes st @ m1"
      by auto
    moreover from Cons.IH [of "after_video ?s0 v (Failure e)"] obtain m2
      where "progress_writes (main_loop provider draws (after_video ?s0 v (Failure e)) rest)
        = progress_writes (after_video ?s0 v (Failure e)) @ m2" by auto
    ultimately show ?thesis by (simp add: main_loop_step Failure)
  qed
qed

lemma single_step_last_write:
  assumes "\<not> rate_limited (main_loop provider draws st [v])"
    and "processed (main_loop provider draws st [v]) mod SAVE_EVERY = 0"
  shows "progress_writes (main_loop provider draws st [v]) \<noteq> [] \<and>
     last (progress_writes (main_loop provider draws st [v])) =
       downloaded (main_loop provider draws st [v])"
proof (cases "download_transcript_chunks (draws v) (provider v)")
  case (Success n d avg_dur)
  with assms show ?thesis
    by (simp add: main_loop_step after_video_fields after_video_writes)
next
  case (Failure e)
  with assms show ?thesis
    by (simp add: main_loop_step after_video_fields after_video_writes split: if_splits)
qed

lemma main_loop_last_write:
  assumes nr: "\<not> rate_limited st" and ne: "xs \<noteq> []"
    and fin: "\<not> rate_limited (main_loop provider draws st xs)"
    and md: "processed (main_loop provider draws st xs) mod SAVE_EVERY = 0"
  shows "progress_writes (main_loop provider draws st xs) \<noteq> [] \<and>
     last (progress_writes (main_loop provider draws st xs)) =
       downloaded (main_loop provider draws st xs)"
proof -
  from ne have xs: "xs = butlast xs @ [last xs]" by simp
  let ?s = "main_loop provider draws st (butlast xs)"
  have ap: "main_loop provider draws st (butlast xs @ [last xs]) =
      (if rate_limited ?s then ?s else main_loop provider draws ?s [last xs])"
    by (rule main_loop_append [OF nr])
  have mid: "\<not> rate_limited ?s"
  proof
    assume "rate_limited ?s"
    with ap have "main_loop provider draws st (butlast xs @ [last xs]) = ?s" by simp
    with xs have "main_loop provider draws st xs = ?s" by simp
    with fin \<open>rate_limited ?s\<close> show False by simp
  qed
  with ap xs have eq: "main_loop provider draws st xs = main_loop provider draws ?s [last xs]"
    by simp
  from fin md show ?thesis
    unfolding eq by (rule single_step_last_write)
qed

lemma initial_state_fields:
  shows "processed (initial_state c) = 0" and "\<not> rate_limited (initial_state c)"
    and "progress_writes (initial_state c) = []" and "results (initial_state c) = []"
    and "downloaded (initial_state c) = c"
  by (simp_all add: initial_state_def)

lemma in_loop_write_content:
  assumes k: "k < length (progress_writes (main_loop provider draws (initial_state c) batch))"
  shows "progress_writes (main_loop provider draws (initial_state c) batch) ! k =
     downloaded (main_loop provider draws (initial_state c) (take (Suc k * SAVE_EVERY) batch))"
proof -
  let ?s0 = "initial_state c"
  let ?fin = "main_loop provider draws ?s0 batch"
  let ?m = "Suc k * SAVE_EVERY"
  let ?xs = "take ?m batch"
  let ?mid = "main_loop provider draws ?s0 ?xs"
  have n0: "0 < SAVE_EVERY" by (simp add: SAVE_EVERY_def)
  note nr = initial_state_fields(2) [of c]
  from main_loop_counts [of provider draws ?s0 batch]
  have cnt: "length (progress_writes ?fin) = processed ?fin div SAVE_EVERY"
    by (simp add: initial_state_fields)
  with k have "Suc k \<le> processed ?fin div SAVE_EVERY" by simp
  then have "?m \<le> (processed ?fin div SAVE_EVERY) * SAVE_EVERY" by (rule mult_le_mono1)
  also have "\<dots> \<le> processed ?fin" by simp
  finally have mp: "?m \<le> processed ?fin" .
  from main_loop_processed [OF nr, of provider draws batch]
  have "processed ?fin \<le> length batch" by (cases "rate_limited ?fin") (simp_all add: initial_state_fields)
  with mp have ml: "?m \<le> length batch" by simp
  then have lx: "length ?xs = ?m" by simp
  have split: "batch = ?xs @ drop ?m batch" by simp
  have ap: "main_loop provider draws ?s0 (?xs @ drop ?m batch) =
      (if rate_limited ?mid then ?mid else main_loop provider draws ?mid (drop ?m batch))"
    by (rule main_loop_append [OF nr])
  have mid: "\<not> rate_limited ?mid"
  proof
    assume r: "rate_limited ?mid"
    with ap split have "?fin = ?mid" by simp
    moreover from main_loop_processed [OF nr, of provider draws ?xs] r lx
    have "processed ?mid < ?m" by (simp add: initial_state_fields)
    ultimately show False using mp by simp
  qed
  with ap split have fin: "?fin = main_loop provider draws ?mid (drop ?m batch)" by simp
  from main_loop_processed [OF nr, of provider draws ?xs] mid lx
  have pm: "processed ?mid = ?m" by (simp add: initial_state_fields)
  from main_loop_counts [of provider draws ?s0 ?xs] pm n0
  have lw: "length (progress_writes ?mid) = Suc k" by (simp add: initial_state_fields)
  from n0 ml have ne: "?xs \<noteq> []" by auto
  from pm have "processed ?mid mod SAVE_EVERY = 0" by simp
  from main_loop_last_write [OF nr ne mid this]
  have lst: "last (progress_writes ?mid) = downloaded ?mid" and wne: "progress_writes ?mid \<noteq> []"
    by simp_all
  from main_loop_writes_extend [of provider draws ?mid "drop ?m batch"] fin
  obtain more where "progress_writes ?fin = progress_writes ?mid @ more" by auto
  then have "progress_writes ?fin ! k = progress_writes ?mid ! k"
    using lw by (simp add: nth_append)
  also from wne lw have "\<dots> = last (progress_writes ?mid)" by (simp add: last_conv_nth)
  finally show ?thesis using lst by simp
qed

text \<open>
  Claim C8, as amended. When no video is left to download, the script ends before the
  loop: nothing is fetched and the progress file is not written. Otherwise it is written
  each time the number of processed videos, successful or failed with an error other than
  the rate limit, reaches a multiple of \<open>SAVE_EVERY\<close>, and once more after the loop with the
  final completed set, also when the loop was left on a rate limit. The \<open>k\<close>-th write
  made inside the loop holds the completed set as it was after exactly
  \<open>(k + 1) * SAVE_EVERY\<close> videos had been processed.
\<close>

theorem progress_saved_every_n_processed:
  "(batch_videos all_video_ids completed = [] \<longrightarrow>
     progress_writes (run provider draws all_video_ids completed) = [] \<and>
     fetched (run provider draws all_video_ids completed) = []) \<and>
   (batch_videos all_video_ids completed \<noteq> [] \<longrightarrow>
     progress_writes (run provider draws all_video_ids completed) =
       progress_writes (main_loop provider draws (initial_state completed)
          (batch_videos all_video_ids completed)) @
       [downloaded (main_loop provider draws (initial_state completed)
          (batch_videos all_video_ids completed))] \<and>
     length (progress_writes (main_loop provider draws (initial_state completed)
          (batch_videos all_video_ids completed))) =
       processed (main_loop provider draws (initial_state completed)
          (batch_videos all_video_ids completed)) div SAVE_EVERY \<and>
     processed (main_loop provider draws (initial_state completed)
          (batch_videos all_video_ids completed)) =
       length (results (main_loop provider draws (initial_state completed)
          (batch_videos all_video_ids completed))) \<and>
     (\<forall>k. k < length (progress_writes (main_loop provider draws (initial_state completed)
          (batch_videos all_video_ids completed))) \<longrightarrow>
        progress_writes (main_loop provider draws (initial_state completed)
          (batch_videos all_video_ids completed)) ! k =
        downloaded (main_loop provider draws (initial_state completed)
          (take (Suc k * SAVE_EVERY) (batch_videos all_video_ids completed)))))"
proof (intro impI conjI allI)
  assume "batch_videos all_video_ids completed = []"
  then show "progress_writes (run provider draws all_video_ids completed) = []"
    and "fetched (run provider draws all_video_ids completed) = []"
    by (simp_all add: run_def initial_state_def)
next
  let ?b = "batch_videos all_video_ids completed"
  let ?st = "main_loop provider draws (initial_state completed) ?b"
  assume "?b \<noteq> []"
  then show "progress_writes (run provider draws all_video_ids completed) =
      progress_writes ?st @ [downloaded ?st]"
    by (simp add: run_def save_progress_def)
  from main_loop_counts [of provider draws "initial_state completed" ?b]
  show "length (progress_writes ?st) = processed ?st div SAVE_EVERY"
    and "processed ?st = length (results ?st)"
    by (simp_all add: initial_state_fields)
  fix k
  assume "k < length (progress_writes ?st)"
  then show "progress_writes ?st ! k =
      downloaded (main_loop provider draws (initial_state completed) (take (Suc k * SAVE_EVERY) ?b))"
    by (rule in_loop_write_content)
qed

text \<open>
  The amended claim C8 on eight videos: the first fails, five succeed, the seventh is
  rate limited.
\<close>

theorem progress_saved_every_n_processed_witness:
  "batch_videos [''a'', ''b'', ''c'', ''d'', ''e'', ''f'', ''g'', ''h''] {} \<noteq> [] \<and>
   progress_writes (run throttled_provider steady_draws
      [''a'', ''b'', ''c'', ''d'', ''e'', ''f'', ''g'', ''h''] {}) =
     [{''b'', ''c'', ''d'', ''e''}, {''b'', ''c'', ''d'', ''e'', ''f''}] \<and>
   rate_limited (run throttled_provider steady_draws
      [''a'', ''b'', ''c'', ''d'', ''e'', ''f'', ''g'', ''h''] {}) \<and>
   (0::nat) < length (progress_writes (main_loop throttled_provider steady_draws (initial_state {})
      (batch_videos [''a'', ''b'', ''c'', ''d'', ''e'', ''f'', ''g'', ''h''] {}))) \<and>
   progress_writes (main_loop throttled_provider steady_draws (initial_state {})
      (batch_videos [''a'', ''b'', ''c'', ''d'', ''e'', ''f'', ''g'', ''h''] {})) ! 0 =
     downloaded (main_loop throttled_provider steady_draws (initial_state {})
       (take (Suc 0 * SAVE_EVERY)
          (batch_videos [''a'', ''b'', ''c'', ''d'', ''e'', ''f'', ''g'', ''h''] {}))) \<and>
   batch_videos [''a''] {''a''} = [] \<and>
   progress_writes (run failing_provider steady_draws [''a''] {''a''}) = [] \<and>
   fetched (run failing_provider steady_draws [''a''] {''a''}) = []"
proof -
  let ?ids = "[''a'', ''b'', ''c'', ''d'', ''e'', ''f'', ''g'', ''h'']"
  let ?st = "main_loop throttled_provider steady_draws (initial_state {}) (batch_videos ?ids {})"
  have h1: "batch_videos ?ids {} \<noteq> []" by code_simp
  have h2: "(0::nat) < length (progress_writes ?st)" by code_simp
  have e1: "progress_writes ?st = [{''b'', ''c'', ''d'', ''e''}]" by code_simp
  have e2: "downloaded ?st = {''b'', ''c'', ''d'', ''e'', ''f''}" by code_simp
  have e3: "rate_limited (run throttled_provider steady_draws ?ids {})" by code_simp
  have h0: "batch_videos [''a''] {''a''} = []" by code_simp
  from progress_saved_every_n_processed [of "[''a'']" "{''a''}" failing_provider steady_draws,
      THEN conjunct1, THEN mp, OF h0]
  have z: "progress_writes (run failing_provider steady_draws [''a''] {''a''}) = [] \<and>
      fetched (run failing_provider steady_draws [''a''] {''a''}) = []" .
  note t = progress_saved_every_n_processed [of ?ids "{}" throttled_provider steady_draws,
      THEN conjunct2, THEN mp, OF h1]
  from t have w: "progress_writes (run throttled_provider steady_draws ?ids {}) =
      progress_writes ?st @ [downloaded ?st]" by (rule conjunct1)
  from t have "\<forall>k. k < length (progress_writes ?st) \<longrightarrow> progress_writes ?st ! k =
      downloaded (main_loop throttled_provider steady_draws (initial_state {})
        (take (Suc k * SAVE_EVERY) (batch_videos ?ids {})))"
    by (elim conjE)
  then have "0 < length (progress_writes ?st) \<longrightarrow> progress_writes ?st ! 0 =
      downloaded (main_loop throttled_provider steady_draws (initial_state {})
        (take (Suc 0 * SAVE_EVERY) (batch_videos ?ids {})))"
    by (rule spec)
  from this h2 have c: "progress_writes ?st ! 0 =
      downloaded (main_loop throttled_provider steady_draws (initial_state {})
        (take (Suc 0 * SAVE_EVERY) (batch_videos ?ids {})))"
    by (rule mp)
  from w have w': "progress_writes (run throttled_provider steady_draws ?ids {}) =
      [{''b'', ''c'', ''d'', ''e''}, {''b'', ''c'', ''d'', ''e'', ''f''}]"
    by (simp only: e1 e2 append.simps)
  from z have z1: "progress_writes (run failing_provider steady_draws [''a''] {''a''}) = []"
    and z2: "fetched (run failing_provider steady_draws [''a''] {''a''}) = []"
    by simp_all
  from h1 w' e3 h2 c h0 z1 z2 show ?thesis by (intro conjI)
qed

text \<open>
  Claim C8 as stated fails. Five videos that all fail with an ordinary error make the loop
  write the progress file although no video has succeeded. With one failure followed by
  five successes the only write inside the loop comes after the fourth success and none
  follows the fifth. With nothing left to download the run ends without any write.
\<close>

theorem save_counts_failed_videos_counterexample:
  "progress_writes (run failing_provider steady_draws [''a'', ''b'', ''c'', ''d'', ''e''] {}) =
     [{}, {}] \<and>
   progress_writes (main_loop flaky_provider steady_draws (initial_state {})
      [''a'', ''b'', ''c'', ''d'', ''e'', ''f'']) = [{''b'', ''c'', ''d'', ''e''}] \<and>
   downloaded (main_loop flaky_provider steady_draws (initial_state {})
      [''a'', ''b'', ''c'', ''d'', ''e'', ''f'']) = {''b'', ''c'', ''d'', ''e'', ''f''} \<and>
   progress_writes (run failing_provider steady_draws [''a''] {''a''}) = []"
  by code_simp

text \<open>
  Claim C7 at a failing input. The claim says that the loop stops on the rate-limit
  failure, recognised by \<open>429\<close> or \<open>Too Many Requests\<close> in the exception text, and that any
  other error is recorded and followed by the next video. An exception whose text is
  \<open>RateLimited\<close> contains neither marker, yet its recorded error text equals the word the
  loop compares with: the loop stops, the second video is never fetched and nothing is
  recorded.
\<close>

theorem rate_limit_sentinel_collision:
  "\<not> py_in ''429'' ''RateLimited'' \<and> \<not> py_in ''Too Many Requests'' ''RateLimited'' \<and>
   download_transcript_chunks (steady_draws ''v1'') (sentinel_provider ''v1'') =
     Failure ''RateLimited'' \<and>
   fetched (main_loop sentinel_provider steady_draws (initial_state {}) [''v1'', ''v2'']) =
     [''v1''] \<and>
   rate_limited (main_loop sentinel_provider steady_draws (initial_state {}) [''v1'', ''v2'']) \<and>
   results (main_loop sentinel_provider steady_draws (initial_state {}) [''v1'', ''v2'']) = []"
  by code_simp

end
